theory Spec2Isabelle
  imports Main
begin

section \<open>Commons: nested property paths and mixins\<close>

text \<open>
  JavaScript values as far as the path helpers of \<^verbatim>\<open>Commons\<close> look at them. An object is
  the association list of its own properties (a later binding of a key is shadowed by an
  earlier one); a function is an object whose \<^verbatim>\<open>typeof\<close> is \<^verbatim>\<open>function\<close>, identified
  by a number. Properties inherited from built-in prototypes are outside the model.
\<close>

datatype jsval =
    JUndefined
  | JNull
  | JBool bool
  | JNum int
  | JStr string
  | JObj "(string \<times> jsval) list"
  | JFun nat "(string \<times> jsval) list"

text \<open>
  The errors of the module: the three \<^verbatim>\<open>throw new Error(...)\<close> statements, each with the
  values interpolated into its message, the \<^verbatim>\<open>TypeError\<close> raised by the language when a
  property of \<^verbatim>\<open>undefined\<close> or \<^verbatim>\<open>null\<close> is read or a property is written on a value that is
  not an object (the module is strict code), and an error thrown by a functional mixin.
\<close>

datatype error =
    SetSubProperty_error string string
  | GetSubProperty_error string string
  | Mixin_error string
  | Type_error
  | Thrown_by_mixin nat



text \<open>The own property \<open>k\<close> of a value, \<^verbatim>\<open>undefined\<close> when there is none.\<close>

fun own :: "jsval \<Rightarrow> string \<Rightarrow> jsval" where
  "own (JObj ps) k = (case map_of ps k of Some v \<Rightarrow> v | None \<Rightarrow> JUndefined)"
| "own (JFun f ps) k = (case map_of ps k of Some v \<Rightarrow> v | None \<Rightarrow> JUndefined)"
| "own v k = JUndefined"

text \<open>The read \<^verbatim>\<open>curObj[part]\<close>: a \<^verbatim>\<open>TypeError\<close> on \<^verbatim>\<open>undefined\<close> and \<^verbatim>\<open>null\<close>.\<close>

fun get_prop :: "jsval \<Rightarrow> string \<Rightarrow> error + jsval" where
  "get_prop JUndefined k = Inl Type_error"
| "get_prop JNull k = Inl Type_error"
| "get_prop v k = Inr (own v k)"











subsection \<open>What a path denotes\<close>


fun first_gap :: "jsval \<Rightarrow> string list \<Rightarrow> (string \<times> jsval) option" where
  "first_gap v [] = None"
| "first_gap v [k] = None"
| "first_gap v (k # ks) =
     (let c = own v k in
      if c = JUndefined \<or> c = JNull then Some (k, c) else first_gap c ks)"



section \<open>Select: the selection state and its views\<close>

text \<open>
  An item record with the references it holds to its views. The popup-list entry and the
  native option are created together by \<^verbatim>\<open>_onItemAdded\<close> and dropped together by
  \<^verbatim>\<open>_onItemRemoved\<close>, so the two references are one optional pair; of each view the model
  keeps the flags the selection logic writes. \<open>tag\<close> says that \<^verbatim>\<open>item._tag\<close> is defined.
\<close>

record views =
  entry_selected :: bool
  entry_hidden :: bool
  option_selected :: bool
  option_default :: bool

record item =
  item_value :: string
  content :: string
  disabled :: bool
  selected :: bool
  views :: "views option"
  tag :: bool

text \<open>
  What the component does to its surroundings, in order: the events it triggers on
  itself, the focus it gives to its button, every write of the \<^verbatim>\<open>selected\<close> state of a
  popup-list entry (with the value written and the value of \<^verbatim>\<open>_bulkSelectionChange\<close> at
  that moment: the list answers such a write with a change event), and every write of an
  item's \<^verbatim>\<open>selected\<close> state that a handler of a list or native change issues itself
  (with the value written and the value of the flag at that moment).
\<close>

datatype effect =
    Trigger_change
  | Trigger_hideitems
  | Focus_button
  | Entry_write nat bool bool
  | Pass_write nat bool bool

text \<open>
  The Select. Items are referred to by their position in the collection; \<open>taglist\<close> holds
  the items whose tag is in the tag list, in the order of the tags; \<open>placeholder\<close> is the
  reflected attribute, empty when it is not set.
\<close>

record select =
  items :: "item list"
  multiple :: bool
  placeholder :: string
  input_value :: string
  label :: string
  is_placeholder :: bool
  bulkSelectionChange :: bool
  initialValues :: "string list"
  overlay_open :: bool
  taglist :: "nat list"
  trace :: "effect list"

text \<open>
  A run ends in a state, or fails: by reading a property of \<^verbatim>\<open>undefined\<close>, or because the
  nesting of attribute reactions went deeper than the bound given to the run.
\<close>

datatype failure = Out_of_fuel | Undefined_reference

text \<open>
  The three ways the code writes the \<^verbatim>\<open>selected\<close> state of an item, and the reaction of
  the item to a write, which the handlers below take as a parameter.
\<close>

datatype item_write = Set_attribute | Remove_attribute | Set_property bool

type_synonym writer = "select \<Rightarrow> nat \<Rightarrow> item_write \<Rightarrow> failure + select"

fun each :: "('a \<Rightarrow> select \<Rightarrow> failure + select) \<Rightarrow> 'a list \<Rightarrow> select \<Rightarrow> failure + select" where
  "each f [] s = Inr s"
| "each f (x # xs) s = (case f x s of Inl e \<Rightarrow> Inl e | Inr s' \<Rightarrow> each f xs s')"

definition update_item :: "nat \<Rightarrow> (item \<Rightarrow> item) \<Rightarrow> select \<Rightarrow> select" where
  "update_item i f s = s\<lparr>items := (items s)[i := f (items s ! i)]\<rparr>"

definition trigger :: "effect \<Rightarrow> select \<Rightarrow> select" where
  "trigger e s = s\<lparr>trace := trace s @ [e]\<rparr>"

definition arrayDiff :: "'a list \<Rightarrow> 'a list \<Rightarrow> 'a list" where
  "arrayDiff a b = filter (\<lambda>item. \<not> list_ex (\<lambda>item2. item = item2) b) a"

subsection \<open>The item collection\<close>

text \<open>
  Modelled from the spec: the selectable collection behind \<^verbatim>\<open>this.items\<close>
  (\<^verbatim>\<open>coralui-collection\<close>), of which the source has only the calls. The selection is the
  subset of the item records whose \<^verbatim>\<open>selected\<close> is true, in the order of the collection;
  the first selectable item is the first one that is not disabled; the two deselecting
  operations remove the \<^verbatim>\<open>selected\<close> attribute of the items selected when they are called.
\<close>

definition getAll :: "select \<Rightarrow> nat list" where
  "getAll s = [0..<length (items s)]"

definition getAllSelected :: "select \<Rightarrow> nat list" where
  "getAllSelected s = filter (\<lambda>i. selected (items s ! i)) (getAll s)"

definition getFirstSelected :: "select \<Rightarrow> nat option" where
  "getFirstSelected s = (case getAllSelected s of [] \<Rightarrow> None | i # _ \<Rightarrow> Some i)"

definition getLastSelected :: "select \<Rightarrow> nat option" where
  "getLastSelected s = (case rev (getAllSelected s) of [] \<Rightarrow> None | i # _ \<Rightarrow> Some i)"

definition getFirstSelectable :: "select \<Rightarrow> nat option" where
  "getFirstSelectable s = List.find (\<lambda>i. \<not> disabled (items s ! i)) (getAll s)"

definition deselectAllExcept :: "writer \<Rightarrow> nat \<Rightarrow> select \<Rightarrow> failure + select" where
  "deselectAllExcept w i s =
     each (\<lambda>j s'. w s' j Remove_attribute) (filter (\<lambda>j. j \<noteq> i) (getAllSelected s)) s"

definition deselectAllExceptLast :: "writer \<Rightarrow> select \<Rightarrow> failure + select" where
  "deselectAllExceptLast w s =
     each (\<lambda>j s'. w s' j Remove_attribute) (butlast (getAllSelected s)) s"

subsection \<open>Reading the selection\<close>

definition selectedItem :: "select \<Rightarrow> nat option" where
  "selectedItem s = (if multiple s then getFirstSelected s else getLastSelected s)"

definition selectedItems :: "select \<Rightarrow> nat list" where
  "selectedItems s =
     (if multiple s then getAllSelected s
      else (case selectedItem s of None \<Rightarrow> [] | Some i \<Rightarrow> [i]))"

text \<open>
  Modelled from the spec: the tag list (\<^verbatim>\<open>coralui-component-taglist\<close>) holds one tag per
  attached item, and its \<^verbatim>\<open>values\<close> are the values of its tags in order.
\<close>

definition taglist_values :: "select \<Rightarrow> string list" where
  "taglist_values s = map (\<lambda>i. item_value (items s ! i)) (taglist s)"

definition values_get :: "select \<Rightarrow> string list" where
  "values_get s =
     (if multiple s then taglist_values s
      else (case selectedItem s of None \<Rightarrow> [] | Some i \<Rightarrow> [input_value s]))"

definition value_get :: "select \<Rightarrow> string" where
  "value_get s =
     (if multiple s then (case taglist_values s of [] \<Rightarrow> [] | v # _ \<Rightarrow> v) else input_value s)"

subsection \<open>Tags and views of an item\<close>

definition addTagToTagList :: "nat \<Rightarrow> select \<Rightarrow> select" where
  "addTagToTagList i s =
     (update_item i (\<lambda>it. it\<lparr>tag := True\<rparr>) s)
       \<lparr>taglist := filter (\<lambda>j. j \<noteq> i) (taglist s) @ [i]\<rparr>"

definition removeTagFromTagList :: "nat \<Rightarrow> bool \<Rightarrow> select \<Rightarrow> select" where
  "removeTagFromTagList i destroy s =
     (if tag (items s ! i)
      then (update_item i (\<lambda>it. it\<lparr>tag := \<not> destroy\<rparr>) s)
             \<lparr>taglist := filter (\<lambda>j. j \<noteq> i) (taglist s)\<rparr>
      else s)"

text \<open>
  \<^verbatim>\<open>_onItemAdded\<close>: the views are created when the item has none and filled from the item
  without events (\<^verbatim>\<open>set(..., true)\<close>); the native option gets the \<^verbatim>\<open>selected\<close> attribute
  when the value of the item is one of the initial values.
\<close>

definition onItemAdded :: "nat \<Rightarrow> select \<Rightarrow> select" where
  "onItemAdded i s =
     (let it = items s ! i;
          old = (case views it of
                   None \<Rightarrow> \<lparr>entry_selected = False, entry_hidden = False,
                             option_selected = False, option_default = False\<rparr>
                 | Some v \<Rightarrow> v);
          v = old\<lparr>entry_selected := selected it,
                  option_default := option_default old \<or> item_value it \<in> set (initialValues s),
                  option_selected := selected it\<rparr>;
          s1 = update_item i (\<lambda>it. it\<lparr>views := Some v\<rparr>) s
      in if multiple s1
         then (if selected it
               then addTagToTagList i
                      (update_item i (\<lambda>it. it\<lparr>views := Some (v\<lparr>entry_hidden := True\<rparr>)\<rparr>) s1)
               else s1)
         else (if selected it then s1\<lparr>input_value := item_value it\<rparr> else s1))"

definition onItemRemoved :: "nat \<Rightarrow> select \<Rightarrow> select" where
  "onItemRemoved i s =
     removeTagFromTagList i True (update_item i (\<lambda>it. it\<lparr>views := None\<rparr>) s)"

text \<open>
  Writing the \<^verbatim>\<open>selected\<close> state of the popup-list entry and of the native option of an
  item that has its views.
\<close>

definition write_views :: "nat \<Rightarrow> bool \<Rightarrow> select \<Rightarrow> select" where
  "write_views i b s =
     trigger (Entry_write i b (bulkSelectionChange s))
       (update_item i
          (\<lambda>it. it\<lparr>views := map_option (\<lambda>v. v\<lparr>entry_selected := b, option_selected := b\<rparr>)
                                (views it)\<rparr>) s)"

definition set_hidden :: "nat \<Rightarrow> bool \<Rightarrow> select \<Rightarrow> select" where
  "set_hidden i b s =
     update_item i (\<lambda>it. it\<lparr>views := map_option (\<lambda>v. v\<lparr>entry_hidden := b\<rparr>) (views it)\<rparr>) s"

definition onItemSelected :: "nat \<Rightarrow> select \<Rightarrow> select" where
  "onItemSelected i s =
     (let s1 = (if views (items s ! i) = None then onItemAdded i s else s);
          s2 = write_views i True s1
      in if multiple s2 then set_hidden i True (addTagToTagList i s2)
         else s2\<lparr>input_value := item_value (items s2 ! i)\<rparr>)"

definition onItemDeselected :: "nat \<Rightarrow> select \<Rightarrow> select" where
  "onItemDeselected i s =
     (let s1 = (if views (items s ! i) = None then onItemAdded i s else s);
          s2 = write_views i False s1
      in if multiple s2 then set_hidden i False (removeTagFromTagList i False s2)
         else s2)"

subsection \<open>The label\<close>

text \<open>Modelled from the spec: \<^verbatim>\<open>i18n.get\<close>, which gives the generic label.\<close>

definition i18n_get :: "string \<Rightarrow> string" where
  "i18n_get key = key"

text \<open>
  The setter of \<^verbatim>\<open>placeholder\<close>. In case 4 (no placeholder, single selection, nothing
  selected) the first selectable item gets the \<^verbatim>\<open>selected\<close> attribute.
\<close>

definition placeholder_set :: "writer \<Rightarrow> string \<Rightarrow> select \<Rightarrow> failure + select" where
  "placeholder_set w v s =
     (let s1 = s\<lparr>placeholder := v\<rparr> in
      if placeholder s1 \<noteq> [] \<and> (multiple s1 \<or> selectedItem s1 = None)
      then Inr (s1\<lparr>is_placeholder := True, label := placeholder s1\<rparr>)
      else if multiple s1
      then Inr (s1\<lparr>is_placeholder := True, label := i18n_get ''Select''\<rparr>)
      else if selectedItem s1 = None
      then (let s2 = s1\<lparr>input_value := []\<rparr>;
                placeholderItem = getFirstSelectable s2;
                s3 = s2\<lparr>is_placeholder := False\<rparr>
            in case placeholderItem of
                 Some k \<Rightarrow>
                   (case w s3 k Set_attribute of
                      Inl e \<Rightarrow> Inl e
                    | Inr s4 \<Rightarrow> Inr (s4\<lparr>label := content (items s4 ! k)\<rparr>))
               | None \<Rightarrow> Inr (s3\<lparr>label := []\<rparr>))
      else Inr s1)"

definition syncSelectedItemPlaceholder :: "writer \<Rightarrow> select \<Rightarrow> failure + select" where
  "syncSelectedItemPlaceholder w s =
     (case placeholder_set w (placeholder s) s of
        Inl e \<Rightarrow> Inl e
      | Inr s1 \<Rightarrow>
          (case selectedItem s1 of
             Some k \<Rightarrow>
               if \<not> multiple s1
               then Inr (s1\<lparr>is_placeholder := False, label := content (items s1 ! k)\<rparr>)
               else Inr s1
           | None \<Rightarrow> Inr s1))"

definition updateLabel :: "writer \<Rightarrow> select \<Rightarrow> failure + select" where
  "updateLabel w s = syncSelectedItemPlaceholder w s"

subsection \<open>The handler of an item's selection change\<close>

definition onItemSelectedChange :: "writer \<Rightarrow> nat \<Rightarrow> select \<Rightarrow> failure + select" where
  "onItemSelectedChange w i s =
     (let s1 = s\<lparr>bulkSelectionChange := True\<rparr>;
          r = (if selected (items s1 ! i)
               then (let s2 = onItemSelected i s1
                     in if \<not> multiple s2 then deselectAllExcept w i s2 else Inr s2)
               else Inr (onItemDeselected i s1))
      in case r of
           Inl e \<Rightarrow> Inl e
         | Inr s3 \<Rightarrow> updateLabel w (s3\<lparr>bulkSelectionChange := False\<rparr>))"

text \<open>
  Modelled from the spec: the item (\<^verbatim>\<open>Coral.Select.Item\<close>, not in the source) reacts to a
  write of its \<^verbatim>\<open>selected\<close> state by notifying the Select, which runs
  \<^verbatim>\<open>_onItemSelectedChange\<close> to completion before the write returns. Setting the attribute
  or the property always notifies; removing the attribute notifies when it was there.
  The handler writes other items in turn; \<open>n\<close> bounds the depth of that nesting.
\<close>

primrec set_item_selected :: "nat \<Rightarrow> writer" where
  "set_item_selected 0 = (\<lambda>s i wr. Inl Out_of_fuel)"
| "set_item_selected (Suc n) = (\<lambda>s i wr.
     if length (items s) \<le> i then Inr s
     else (case wr of
             Remove_attribute \<Rightarrow>
               if selected (items s ! i)
               then onItemSelectedChange (set_item_selected n) i
                      (update_item i (\<lambda>it. it\<lparr>selected := False\<rparr>) s)
               else Inr s
           | Set_attribute \<Rightarrow>
               onItemSelectedChange (set_item_selected n) i
                 (update_item i (\<lambda>it. it\<lparr>selected := True\<rparr>) s)
           | Set_property b \<Rightarrow>
               onItemSelectedChange (set_item_selected n) i
                 (update_item i (\<lambda>it. it\<lparr>selected := b\<rparr>) s)))"

subsection \<open>The state read from the items\<close>

definition setStateFromDOM :: "writer \<Rightarrow> select \<Rightarrow> failure + select" where
  "setStateFromDOM w s =
     (let r = (if \<not> multiple s
               then (case deselectAllExceptLast w s of
                       Inl e \<Rightarrow> Inl e
                     | Inr s1 \<Rightarrow>
                         (case getFirstSelected s1 of
                            None \<Rightarrow>
                              (let s2 = s1\<lparr>input_value := []\<rparr> in
                               if placeholder s2 = []
                               then (case getFirstSelectable s2 of
                                       Some k \<Rightarrow>
                                         (case w s2 k Set_attribute of
                                            Inl e \<Rightarrow> Inl e
                                          | Inr s3 \<Rightarrow>
                                              Inr (s3\<lparr>input_value := item_value (items s3 ! k)\<rparr>))
                                     | None \<Rightarrow> Inr s2)
                               else Inr s2)
                          | Some k \<Rightarrow> Inr (s1\<lparr>input_value := item_value (items s1 ! k)\<rparr>)))
               else Inr s)
      in case r of Inl e \<Rightarrow> Inl e | Inr s4 \<Rightarrow> updateLabel w s4)"

subsection \<open>Assigning values\<close>

text \<open>
  The loop of the setter of \<^verbatim>\<open>values\<close> in single selection: \<open>targetItem\<close> is the local
  variable of the source, set at the first item whose value is the one asked for.
\<close>

fun values_single :: "writer \<Rightarrow> string \<Rightarrow> nat list \<Rightarrow> nat option \<Rightarrow> select
    \<Rightarrow> failure + (select \<times> nat option)" where
  "values_single w v [] targetItem s = Inr (s, targetItem)"
| "values_single w v (i # is) targetItem s =
     (if targetItem = None \<and> item_value (items s ! i) = v
      then (case w s i Set_attribute of
              Inl e \<Rightarrow> Inl e
            | Inr s' \<Rightarrow> values_single w v is (Some i) s')
      else (case w s i Remove_attribute of
              Inl e \<Rightarrow> Inl e
            | Inr s' \<Rightarrow> values_single w v is targetItem s'))"

definition values_set :: "writer \<Rightarrow> string list \<Rightarrow> select \<Rightarrow> failure + select" where
  "values_set w vs s =
     (let values = (if \<not> multiple s \<and> 1 < length vs then [vs ! 0] else vs);
          its = getAll s
      in if multiple s
         then each (\<lambda>i s'. w s' i (if item_value (items s' ! i) \<in> set values
                                    then Set_attribute else Remove_attribute)) its s
         else (let v = (case values of [] \<Rightarrow> [] | v0 # _ \<Rightarrow> v0) in
               case values_single w v its None s of
                 Inl e \<Rightarrow> Inl e
               | Inr (s', targetItem) \<Rightarrow>
                   if targetItem = None then setStateFromDOM w s' else Inr s'))"

definition value_set :: "writer \<Rightarrow> string \<Rightarrow> select \<Rightarrow> failure + select" where
  "value_set w v s = values_set w [v] s"

definition clear :: "writer \<Rightarrow> select \<Rightarrow> failure + select" where
  "clear w s = value_set w [] s"


subsection \<open>Events of the popup list, the tag list and the native control\<close>

text \<open>
  The \<^verbatim>\<open>oldSelection\<close> and \<^verbatim>\<open>selection\<close> of a list event: nothing, one entry, or an
  array of entries. An entry is named by the item it mirrors; one that names no item of
  the collection has no \<^verbatim>\<open>_selectItem\<close>. Two details are the same reference when both
  are nothing or both are the same entry; arrays are fresh objects.
\<close>

datatype selection = Nothing | Entry nat | Entries "nat list"

fun to_array :: "selection \<Rightarrow> nat list" where
  "to_array Nothing = []"
| "to_array (Entry i) = [i]"
| "to_array (Entries is) = is"

fun same_reference :: "selection \<Rightarrow> selection \<Rightarrow> bool" where
  "same_reference Nothing Nothing = True"
| "same_reference (Entry i) (Entry j) = (i = j)"
| "same_reference a b = False"

definition hideOptions :: "select \<Rightarrow> select" where
  "hideOptions s = trigger Trigger_hideitems (s\<lparr>overlay_open := False\<rparr>)"

text \<open>
  \<^verbatim>\<open>_onSelectListBeforeChange\<close> for the entry of item \<open>i\<close>: the state, and whether the
  default (the change of the list's selection) was prevented.
\<close>

definition onSelectListBeforeChange :: "nat \<Rightarrow> select \<Rightarrow> select \<times> bool" where
  "onSelectListBeforeChange i s =
     (if \<not> multiple s \<and> (case views (items s ! i) of None \<Rightarrow> False | Some v \<Rightarrow> entry_selected v)
      then (s\<lparr>overlay_open := False\<rparr>, True)
      else (s, False))"

definition onSelectListChange :: "writer \<Rightarrow> selection \<Rightarrow> selection \<Rightarrow> select \<Rightarrow> failure + select" where
  "onSelectListChange w old new s =
     (if bulkSelectionChange s then Inr s
      else (let oldSelection = to_array old; selection = to_array new in
            if \<not> same_reference old new
            then (let s1 = s\<lparr>bulkSelectionChange := True\<rparr>;
                      diff = arrayDiff oldSelection selection;
                      newSelection = arrayDiff selection oldSelection
                  in case each (\<lambda>l s'. if l < length (items s')
                                        then w (trigger (Pass_write l False (bulkSelectionChange s')) s') l Remove_attribute
                                        else Inr s') diff s1 of
                       Inl e \<Rightarrow> Inl e
                     | Inr s2 \<Rightarrow>
                         (case each (\<lambda>l s'. if l < length (items s')
                                              then w (trigger (Pass_write l True (bulkSelectionChange s')) s') l Set_attribute
                                              else Inr s') newSelection s2 of
                            Inl e \<Rightarrow> Inl e
                          | Inr s3 \<Rightarrow>
                              (let s4 = s3\<lparr>bulkSelectionChange := False\<rparr> in
                               if overlay_open s4
                               then (let s5 = hideOptions s4 in
                                     if newSelection \<noteq> [] then Inr (trigger Trigger_change s5)
                                     else Inr s5)
                               else Inr s4)))
            else if overlay_open s then Inr (hideOptions s)
            else Inr s))"

text \<open>
  Modelled from the spec: the popup list (\<^verbatim>\<open>coralui-component-selectlist\<close>) on a click on
  the entry of item \<open>i\<close>. It triggers \<^verbatim>\<open>beforechange\<close> for the entry and, unless the default
  was prevented, moves its selection to the entry and triggers \<^verbatim>\<open>change\<close> with its old and
  new selection: one entry in single selection, the array of its selected entries
  otherwise.
\<close>

definition list_selection :: "select \<Rightarrow> selection" where
  "list_selection s =
     (let sel = filter (\<lambda>k. case views (items s ! k) of None \<Rightarrow> False
                                | Some v \<Rightarrow> entry_selected v) (getAll s)
      in if multiple s then Entries sel
         else (case sel of [] \<Rightarrow> Nothing | k # _ \<Rightarrow> Entry k))"

definition list_click :: "writer \<Rightarrow> nat \<Rightarrow> select \<Rightarrow> failure + select" where
  "list_click w i s =
     (case onSelectListBeforeChange i s of
        (s1, prevented) \<Rightarrow>
          if prevented then Inr s1
          else onSelectListChange w (list_selection s1)
                 (if multiple s1 then Entries (to_array (list_selection s1) @ [i]) else Entry i) s1)"

text \<open>
  \<^verbatim>\<open>_onTagListChange\<close>, with the values of the tag list at the time of the event.
\<close>

definition onTagListChange :: "writer \<Rightarrow> string list \<Rightarrow> select \<Rightarrow> failure + select" where
  "onTagListChange w vals s =
     (if bulkSelectionChange s then Inr s
      else (let s1 = s\<lparr>bulkSelectionChange := True\<rparr> in
            case each (\<lambda>i s'. w s' i (if item_value (items s' ! i) \<in> set vals
                                       then Set_attribute else Remove_attribute))
                   (getAllSelected s1) s1 of
              Inl e \<Rightarrow> Inl e
            | Inr s2 \<Rightarrow>
                (let s3 = s2\<lparr>bulkSelectionChange := False\<rparr>;
                     s4 = (if vals = [] then trigger Focus_button s3 else s3)
                 in Inr (trigger Trigger_change s4))))"

text \<open>
  \<^verbatim>\<open>_onNativeSelectChange\<close>, with the items whose native options are checked. The old
  options are the \<^verbatim>\<open>_nativeOption\<close> of the selected items, \<^verbatim>\<open>undefined\<close> for an item
  without views; reading \<^verbatim>\<open>_selectItem\<close> of \<^verbatim>\<open>undefined\<close> fails.
\<close>

definition native_write :: "writer \<Rightarrow> bool \<Rightarrow> nat option \<Rightarrow> select \<Rightarrow> failure + select" where
  "native_write w b opt s =
     (case opt of
        None \<Rightarrow> Inl Undefined_reference
      | Some i \<Rightarrow>
          if i < length (items s) then w (trigger (Pass_write i b (bulkSelectionChange s)) s) i (Set_property b)
          else Inl Undefined_reference)"

definition onNativeSelectChange :: "writer \<Rightarrow> nat list \<Rightarrow> select \<Rightarrow> failure + select" where
  "onNativeSelectChange w checked s =
     (if bulkSelectionChange s then Inr s
      else (let s1 = s\<lparr>bulkSelectionChange := True\<rparr>;
                oldSelectedOptions =
                  map (\<lambda>i. if views (items s1 ! i) = None then None else Some i) (selectedItems s1);
                selectedOptions = map Some checked;
                diff = arrayDiff oldSelectedOptions selectedOptions;
                newSelection = arrayDiff selectedOptions oldSelectedOptions
            in case each (native_write w False) diff s1 of
                 Inl e \<Rightarrow> Inl e
               | Inr s2 \<Rightarrow>
                   (case each (native_write w True) newSelection s2 of
                      Inl e \<Rightarrow> Inl e
                    | Inr s3 \<Rightarrow>
                        (let s4 = s3\<lparr>bulkSelectionChange := False\<rparr>;
                             s5 = (if \<not> multiple s4
                                   then trigger Trigger_hideitems (trigger Focus_button s4)
                                   else s4)
                         in Inr (trigger Trigger_change s5)))))"

subsection \<open>Attachment and changes of the collection\<close>






subsection \<open>Sequences of operations\<close>




subsection \<open>Example states\<close>

definition example_item :: "string \<Rightarrow> bool \<Rightarrow> item" where
  "example_item v b =
     \<lparr>item_value = v, content = v, disabled = False, selected = b, views = None, tag = False\<rparr>"

definition example_select :: "item list \<Rightarrow> select" where
  "example_select its =
     \<lparr>items = its, multiple = False, placeholder = [], input_value = [], label = [],
      is_placeholder = False, bulkSelectionChange = False, initialValues = [],
      overlay_open = False, taglist = [], trace = []\<rparr>"


definition example_views :: "bool \<Rightarrow> views" where
  "example_views b =
     \<lparr>entry_selected = b, entry_hidden = False, option_selected = b, option_default = False\<rparr>"

definition three_items :: select where
  "three_items =
     example_select [example_item ''A'' False, example_item ''B'' False, example_item ''C'' False]"

definition first_selected :: select where
  "first_selected =
     example_select [(example_item ''A'' True)\<lparr>views := Some (example_views True)\<rparr>,
                     (example_item ''B'' False)\<lparr>views := Some (example_views False)\<rparr>]"

section \<open>Closed forms and invariants\<close>

text \<open>
  The definitions of this section are not part of the program: they say what the program
  computes and what it preserves, and the lemmas below relate them to it.

  \<open>core\<close> is what the selection logic reads of a state, \<open>fixed\<close> what no item write changes,
  \<open>sel_set\<close> the set of the selected items.
\<close>

definition core :: "select \<Rightarrow> (string \<times> string \<times> bool \<times> bool) list \<times> bool \<times> string \<times> string list \<times> bool" where
  "core s = (map (\<lambda>it. (item_value it, content it, disabled it, selected it)) (items s),
             multiple s, placeholder s, initialValues s, overlay_open s)"

text \<open>
  \<open>auto_needed\<close> is the case of the label derivation that selects the first selectable item;
  \<open>relabel\<close> is the label derivation in all the other cases, where it writes no item.
\<close>

definition auto_needed :: "select \<Rightarrow> bool" where
  "auto_needed s \<longleftrightarrow>
     placeholder s = [] \<and> \<not> multiple s \<and> selectedItem s = None \<and> getFirstSelectable s \<noteq> None"

definition relabel :: "select \<Rightarrow> select" where
  "relabel s =
     (if placeholder s \<noteq> [] \<and> (multiple s \<or> selectedItem s = None)
      then s\<lparr>is_placeholder := True, label := placeholder s\<rparr>
      else if multiple s then s\<lparr>is_placeholder := True, label := i18n_get ''Select''\<rparr>
      else (case selectedItem s of
              None \<Rightarrow> s\<lparr>input_value := [], is_placeholder := False, label := []\<rparr>
            | Some k \<Rightarrow> s\<lparr>is_placeholder := False, label := content (items s ! k)\<rparr>))"

text \<open>
  The state after the attribute reaction, without nesting: \<open>mark\<close> is the write itself,
  \<open>deselected j\<close> the whole deselection of an item \<open>j\<close> while others stay selected,
  \<open>selected_alone i\<close> the reaction to the selection of \<open>i\<close> in single selection,
  \<open>auto_selected k\<close> the label derivation that selects \<open>k\<close>, \<open>handled i\<close> the reaction to a
  change of item \<open>i\<close>, and \<open>written i wr\<close> the write \<open>wr\<close> of item \<open>i\<close> with its reaction.
\<close>

definition deselected :: "nat \<Rightarrow> select \<Rightarrow> select" where
  "deselected j s =
     relabel ((onItemDeselected j
                 ((update_item j (\<lambda>it. it\<lparr>selected := False\<rparr>) s)\<lparr>bulkSelectionChange := True\<rparr>))
              \<lparr>bulkSelectionChange := False\<rparr>)"

definition mark :: "nat \<Rightarrow> bool \<Rightarrow> select \<Rightarrow> select" where
  "mark i b s = update_item i (\<lambda>it. it\<lparr>selected := b\<rparr>) s"

definition any_selected :: "select \<Rightarrow> bool" where
  "any_selected s \<longleftrightarrow> (\<exists>k < length (items s). selected (items s ! k))"

definition selected_alone :: "nat \<Rightarrow> select \<Rightarrow> select" where
  "selected_alone i s =
     relabel ((fold deselected (filter (\<lambda>j. j \<noteq> i) (getAllSelected s))
                 (onItemSelected i (s\<lparr>bulkSelectionChange := True\<rparr>)))
              \<lparr>bulkSelectionChange := False\<rparr>)"

definition auto_selected :: "nat \<Rightarrow> select \<Rightarrow> select" where
  "auto_selected k s =
     (let s4 = selected_alone k (mark k True (s\<lparr>input_value := [], is_placeholder := False\<rparr>))
      in s4\<lparr>is_placeholder := False, label := content (items s4 ! k)\<rparr>)"

definition handled :: "nat \<Rightarrow> select \<Rightarrow> select" where
  "handled i s =
     (if selected (items s ! i)
      then (if multiple s
            then relabel ((onItemSelected i (s\<lparr>bulkSelectionChange := True\<rparr>))
                          \<lparr>bulkSelectionChange := False\<rparr>)
            else selected_alone i s)
      else (let s1 = (onItemDeselected i (s\<lparr>bulkSelectionChange := True\<rparr>))
                       \<lparr>bulkSelectionChange := False\<rparr>
            in case (if auto_needed s1 then getFirstSelectable s1 else None) of
                 Some k \<Rightarrow> auto_selected k s1
               | None \<Rightarrow> relabel s1))"

definition written :: "nat \<Rightarrow> item_write \<Rightarrow> select \<Rightarrow> select" where
  "written i wr s =
     (if length (items s) \<le> i then s
      else (case wr of
              Remove_attribute \<Rightarrow> if selected (items s ! i) then handled i (mark i False s) else s
            | Set_attribute \<Rightarrow> handled i (mark i True s)
            | Set_property b \<Rightarrow> handled i (mark i b s)))"

definition fixed :: "select \<Rightarrow> (string \<times> string \<times> bool) list \<times> bool \<times> string \<times> string list" where
  "fixed s = (map (\<lambda>it. (item_value it, content it, disabled it)) (items s),
              multiple s, placeholder s, initialValues s)"

definition sel_set :: "select \<Rightarrow> nat set" where
  "sel_set s = {k. k < length (items s) \<and> selected (items s ! k)}"

text \<open>
  The selection after item \<open>i\<close> has been selected (\<open>b\<close>) or deselected.
\<close>

definition next_sel :: "select \<Rightarrow> nat \<Rightarrow> bool \<Rightarrow> nat set" where
  "next_sel s i b =
     (if b then (if multiple s then insert i (sel_set s) else {i})
      else (let R = sel_set s - {i} in
            if R = {} \<and> placeholder s = [] \<and> \<not> multiple s
            then (case getFirstSelectable s of Some k \<Rightarrow> {k} | None \<Rightarrow> {})
            else R))"

text \<open>
  \<open>mirrored\<close>: every selected item has its popup-list entry and native option, which is
  what \<^verbatim>\<open>_onItemAdded\<close> gives every attached item. \<open>keeps_views\<close>: no item loses them.
\<close>

definition keeps_views :: "select \<Rightarrow> select \<Rightarrow> bool" where
  "keeps_views s s' \<longleftrightarrow> length (items s') = length (items s)
     \<and> (\<forall>k < length (items s). views (items s ! k) \<noteq> None \<longrightarrow> views (items s' ! k) \<noteq> None)"


text \<open>
  \<open>entry_only s t\<close>: from \<open>s\<close> to \<open>t\<close> the trace has grown by writes of popup-list entries
  only, each made while the flag was set.
\<close>

definition flagged :: "effect \<Rightarrow> bool" where
  "flagged e \<longleftrightarrow> (\<exists>k b. e = Entry_write k b True)"

definition entry_only :: "select \<Rightarrow> select \<Rightarrow> bool" where
  "entry_only s s' \<longleftrightarrow> (\<exists>es. trace s' = trace s @ es \<and> (\<forall>e \<in> set es. flagged e))"


definition closed_inv :: "(select \<Rightarrow> bool) \<Rightarrow> bool" where
  "closed_inv P \<longleftrightarrow>
     (\<forall>s i wr. P s \<longrightarrow> P (written i wr s))
   \<and> (\<forall>s s'. P s \<longrightarrow> items s' = items s \<longrightarrow> multiple s' = multiple s \<longrightarrow>
          placeholder s' = placeholder s \<longrightarrow> initialValues s' = initialValues s \<longrightarrow> P s')"

text \<open>
  The item writes that the passes themselves have issued, in order, as pairs of the item
  and the state written.
\<close>

definition pass_writes :: "effect list \<Rightarrow> (nat \<times> bool) list" where
  "pass_writes es = concat (map (\<lambda>e. case e of Pass_write l b f \<Rightarrow> [(l, b)] | _ \<Rightarrow> []) es)"



text \<open>
  The selection that \<^verbatim>\<open>_setStateFromDOM\<close> ends with, in single selection, when nothing is
  selected.
\<close>

definition fallback :: "select \<Rightarrow> nat set" where
  "fallback s =
     (if placeholder s = [] then (case getFirstSelectable s of Some f \<Rightarrow> {f} | None \<Rightarrow> {})
      else {})"

text \<open>
  The tag list holds each tag once, and only tags of selected items that have one.
\<close>

definition tags_consistent :: "select \<Rightarrow> bool" where
  "tags_consistent s \<longleftrightarrow> distinct (taglist s)
     \<and> (\<forall>k \<in> set (taglist s). k \<in> sel_set s \<and> tag (items s ! k))"



section \<open>Properties of the path helpers and of mixin application\<close>







lemma first_gap_single: "length ks = 1 \<Longrightarrow> first_gap root ks = None"
  by (cases ks; cases "tl ks") auto


lemma get_prop_no_explicit: "get_prop v k \<noteq> Inl (GetSubProperty_error p part)"
  by (cases v) simp_all










section \<open>One item write in closed form\<close>

text \<open>
  The writer is unfolded by hand, one level of nesting at a time, so that the bound on
  the nesting stays visible in the goals.
\<close>

lemma set_item_selected_Suc:
  "set_item_selected (Suc n) s i wr =
     (if length (items s) \<le> i then Inr s
      else (case wr of
             Remove_attribute \<Rightarrow>
               if selected (items s ! i)
               then onItemSelectedChange (set_item_selected n) i
                      (update_item i (\<lambda>it. it\<lparr>selected := False\<rparr>) s)
               else Inr s
           | Set_attribute \<Rightarrow>
               onItemSelectedChange (set_item_selected n) i
                 (update_item i (\<lambda>it. it\<lparr>selected := True\<rparr>) s)
           | Set_property b \<Rightarrow>
               onItemSelectedChange (set_item_selected n) i
                 (update_item i (\<lambda>it. it\<lparr>selected := b\<rparr>) s)))"
  by simp

declare set_item_selected.simps(2) [simp del]

subsection \<open>What the view helpers leave unchanged\<close>

lemma coreD:
  assumes "core s' = core s"
  shows "length (items s') = length (items s)" "multiple s' = multiple s"
    "placeholder s' = placeholder s" "initialValues s' = initialValues s"
    "overlay_open s' = overlay_open s"
    "i < length (items s) \<Longrightarrow> selected (items s' ! i) = selected (items s ! i)"
    "i < length (items s) \<Longrightarrow> disabled (items s' ! i) = disabled (items s ! i)"
    "i < length (items s) \<Longrightarrow> item_value (items s' ! i) = item_value (items s ! i)"
    "i < length (items s) \<Longrightarrow> content (items s' ! i) = content (items s ! i)"
proof -
  have m: "map (\<lambda>it. (item_value it, content it, disabled it, selected it)) (items s')
         = map (\<lambda>it. (item_value it, content it, disabled it, selected it)) (items s)"
    using assms by (simp add: core_def)
  show len: "length (items s') = length (items s)"
    using arg_cong[OF m, of length] by simp
  show "multiple s' = multiple s" "placeholder s' = placeholder s"
    "initialValues s' = initialValues s" "overlay_open s' = overlay_open s"
    using assms by (simp_all add: core_def)
  have nth: "(item_value (items s' ! i), content (items s' ! i), disabled (items s' ! i), selected (items s' ! i))
     = (item_value (items s ! i), content (items s ! i), disabled (items s ! i), selected (items s ! i))"
    if "i < length (items s)"
    using that len arg_cong[OF m, of "\<lambda>xs. xs ! i"] by simp
  show "i < length (items s) \<Longrightarrow> selected (items s' ! i) = selected (items s ! i)"
    "i < length (items s) \<Longrightarrow> disabled (items s' ! i) = disabled (items s ! i)"
    "i < length (items s) \<Longrightarrow> item_value (items s' ! i) = item_value (items s ! i)"
    "i < length (items s) \<Longrightarrow> content (items s' ! i) = content (items s ! i)"
    using nth by simp_all
qed

lemma core_getAllSelected: "core s' = core s \<Longrightarrow> getAllSelected s' = getAllSelected s"
proof -
  assume c: "core s' = core s"
  have "filter (\<lambda>i. selected (items s' ! i)) [0..<length (items s)]
      = filter (\<lambda>i. selected (items s ! i)) [0..<length (items s)]"
    by (rule filter_cong) (simp_all add: coreD(6)[OF c])
  then show ?thesis
    by (simp add: getAllSelected_def getAll_def coreD(1)[OF c])
qed

lemma core_getFirstSelectable: "core s' = core s \<Longrightarrow> getFirstSelectable s' = getFirstSelectable s"
proof -
  assume c: "core s' = core s"
  have "List.find (\<lambda>i. \<not> disabled (items s' ! i)) [0..<length (items s)]
      = List.find (\<lambda>i. \<not> disabled (items s ! i)) [0..<length (items s)]"
    by (rule find_cong) (simp_all add: coreD(7)[OF c])
  then show ?thesis
    by (simp add: getFirstSelectable_def getAll_def coreD(1)[OF c])
qed

lemma core_selectedItem:
  assumes c: "core s' = core s"
  shows "selectedItem s' = selectedItem s"
  by (simp add: selectedItem_def getFirstSelected_def getLastSelected_def
        core_getAllSelected[OF c] coreD(2)[OF c])

lemma core_update_item:
  assumes "\<And>it. item_value (f it) = item_value it \<and> content (f it) = content it
        \<and> disabled (f it) = disabled it \<and> selected (f it) = selected it"
  shows "core (update_item i f s) = core s"
proof (cases "i < length (items s)")
  case True
  have "map (\<lambda>it. (item_value it, content it, disabled it, selected it)) ((items s)[i := f (items s ! i)])
      = (map (\<lambda>it. (item_value it, content it, disabled it, selected it)) (items s))
          [i := (\<lambda>it. (item_value it, content it, disabled it, selected it)) (items s ! i)]"
    by (simp add: map_update assms)
  also have "\<dots> = map (\<lambda>it. (item_value it, content it, disabled it, selected it)) (items s)"
    using True by (simp add: list_update_same_conv)
  finally show ?thesis by (simp add: core_def update_item_def)
next
  case False
  then show ?thesis by (simp add: core_def update_item_def list_update_beyond)
qed

lemma core_fields [simp]:
  "core (s\<lparr>input_value := v\<rparr>) = core s"
  "core (s\<lparr>label := l\<rparr>) = core s"
  "core (s\<lparr>is_placeholder := b\<rparr>) = core s"
  "core (s\<lparr>bulkSelectionChange := b\<rparr>) = core s"
  "core (s\<lparr>taglist := t\<rparr>) = core s"
  "core (s\<lparr>trace := e\<rparr>) = core s"
  "core (trigger ef s) = core s"
  by (simp_all add: core_def trigger_def)

lemma update_item_fields [simp]:
  "multiple (update_item i f s) = multiple s"
  "placeholder (update_item i f s) = placeholder s"
  "input_value (update_item i f s) = input_value s"
  "label (update_item i f s) = label s"
  "is_placeholder (update_item i f s) = is_placeholder s"
  "bulkSelectionChange (update_item i f s) = bulkSelectionChange s"
  "initialValues (update_item i f s) = initialValues s"
  "overlay_open (update_item i f s) = overlay_open s"
  "taglist (update_item i f s) = taglist s"
  "trace (update_item i f s) = trace s"
  "length (items (update_item i f s)) = length (items s)"
  by (simp_all add: update_item_def)

lemma update_item_nth:
  "i < length (items s) \<Longrightarrow> items (update_item i f s) ! j = (if j = i then f (items s ! i) else items s ! j)"
  by (simp add: update_item_def)

lemma trigger_fields [simp]:
  "items (trigger e s) = items s"
  "multiple (trigger e s) = multiple s"
  "placeholder (trigger e s) = placeholder s"
  "input_value (trigger e s) = input_value s"
  "label (trigger e s) = label s"
  "is_placeholder (trigger e s) = is_placeholder s"
  "bulkSelectionChange (trigger e s) = bulkSelectionChange s"
  "initialValues (trigger e s) = initialValues s"
  "overlay_open (trigger e s) = overlay_open s"
  "taglist (trigger e s) = taglist s"
  "trace (trigger e s) = trace s @ [e]"
  by (simp_all add: trigger_def)

lemma core_addTag [simp]: "core (addTagToTagList i s) = core s"
  by (simp add: addTagToTagList_def core_update_item)

lemma core_removeTag [simp]: "core (removeTagFromTagList i d s) = core s"
  by (simp add: removeTagFromTagList_def core_update_item)

lemma core_onItemAdded [simp]: "core (onItemAdded i s) = core s"
  by (simp add: onItemAdded_def Let_def core_update_item)

lemma core_write_views [simp]: "core (write_views i b s) = core s"
  by (simp add: write_views_def core_update_item)

lemma core_set_hidden [simp]: "core (set_hidden i b s) = core s"
  by (simp add: set_hidden_def core_update_item)

lemma core_onItemSelected [simp]: "core (onItemSelected i s) = core s"
  by (simp add: onItemSelected_def Let_def)

lemma core_onItemDeselected [simp]: "core (onItemDeselected i s) = core s"
  by (simp add: onItemDeselected_def Let_def)

lemma helper_bulk [simp]:
  "bulkSelectionChange (addTagToTagList i s) = bulkSelectionChange s"
  "bulkSelectionChange (removeTagFromTagList i d s) = bulkSelectionChange s"
  "bulkSelectionChange (onItemAdded i s) = bulkSelectionChange s"
  "bulkSelectionChange (write_views i b s) = bulkSelectionChange s"
  "bulkSelectionChange (set_hidden i b s) = bulkSelectionChange s"
  "bulkSelectionChange (onItemSelected i s) = bulkSelectionChange s"
  "bulkSelectionChange (onItemDeselected i s) = bulkSelectionChange s"
  by (simp_all add: addTagToTagList_def removeTagFromTagList_def onItemAdded_def write_views_def
        set_hidden_def onItemSelected_def onItemDeselected_def Let_def)

lemma core_auto_needed:
  assumes c: "core s' = core s"
  shows "auto_needed s' = auto_needed s"
  by (simp add: auto_needed_def core_selectedItem[OF c] core_getFirstSelectable[OF c]
        coreD(2)[OF c] coreD(3)[OF c])

lemma selectedItem_fields [simp]:
  "selectedItem (s\<lparr>placeholder := p\<rparr>) = selectedItem s"
  "selectedItem (s\<lparr>is_placeholder := b\<rparr>) = selectedItem s"
  "selectedItem (s\<lparr>label := l\<rparr>) = selectedItem s"
  "selectedItem (s\<lparr>input_value := v\<rparr>) = selectedItem s"
  "selectedItem (s\<lparr>bulkSelectionChange := b\<rparr>) = selectedItem s"
  by (simp_all add: selectedItem_def getFirstSelected_def getLastSelected_def getAllSelected_def getAll_def)

lemma sync_relabel:
  "\<not> auto_needed s \<Longrightarrow> syncSelectedItemPlaceholder w s = Inr (relabel s)"
  by (auto simp: auto_needed_def syncSelectedItemPlaceholder_def placeholder_set_def relabel_def
        Let_def getFirstSelectable_def getAll_def split: option.splits)

lemma core_relabel [simp]: "core (relabel s) = core s"
  by (simp add: relabel_def split: option.splits)

subsection \<open>The attribute reaction, case by case\<close>

text \<open>
  A deselection never nests further when something stays selected or a placeholder is set;
  a selection in single selection nests one level, for the deselection of the others; the
  automatic selection of the first selectable item nests one level as well. Two levels
  are therefore enough for every write, which is \<open>writer_closed\<close>.
\<close>

lemma handler_deselect:
  assumes "\<not> selected (items s ! j)" and "\<not> auto_needed s"
  shows "onItemSelectedChange w j s =
     Inr (relabel ((onItemDeselected j (s\<lparr>bulkSelectionChange := True\<rparr>))\<lparr>bulkSelectionChange := False\<rparr>))"
proof -
  have "core ((onItemDeselected j (s\<lparr>bulkSelectionChange := True\<rparr>))\<lparr>bulkSelectionChange := False\<rparr>) = core s"
    by simp
  then have "\<not> auto_needed ((onItemDeselected j (s\<lparr>bulkSelectionChange := True\<rparr>))\<lparr>bulkSelectionChange := False\<rparr>)"
    using assms(2) core_auto_needed by blast
  then show ?thesis
    using assms(1) by (simp add: onItemSelectedChange_def updateLabel_def sync_relabel)
qed

lemma handler_select_multiple:
  assumes "selected (items s ! i)" and "multiple s"
  shows "onItemSelectedChange w i s =
     Inr (relabel ((onItemSelected i (s\<lparr>bulkSelectionChange := True\<rparr>))\<lparr>bulkSelectionChange := False\<rparr>))"
proof -
  let ?t = "(onItemSelected i (s\<lparr>bulkSelectionChange := True\<rparr>))\<lparr>bulkSelectionChange := False\<rparr>"
  have c: "core ?t = core s" by simp
  have "\<not> auto_needed ?t"
    using assms(2) coreD(2)[OF c] by (simp add: auto_needed_def)
  moreover have "multiple (onItemSelected i (s\<lparr>bulkSelectionChange := True\<rparr>))"
    using assms(2) coreD(2)[of "onItemSelected i (s\<lparr>bulkSelectionChange := True\<rparr>)" s] by simp
  ultimately show ?thesis
    using assms(1) by (simp add: onItemSelectedChange_def updateLabel_def sync_relabel Let_def)
qed

lemma mark_fields [simp]:
  "multiple (mark i b s) = multiple s"
  "placeholder (mark i b s) = placeholder s"
  "input_value (mark i b s) = input_value s"
  "label (mark i b s) = label s"
  "is_placeholder (mark i b s) = is_placeholder s"
  "bulkSelectionChange (mark i b s) = bulkSelectionChange s"
  "initialValues (mark i b s) = initialValues s"
  "overlay_open (mark i b s) = overlay_open s"
  "taglist (mark i b s) = taglist s"
  "trace (mark i b s) = trace s"
  "length (items (mark i b s)) = length (items s)"
  by (simp_all add: mark_def)

lemma mark_nth [simp]:
  "i < length (items s) \<Longrightarrow> k < length (items s) \<Longrightarrow>
     selected (items (mark i b s) ! k) = (if k = i then b else selected (items s ! k))"
  "k < length (items s) \<Longrightarrow> disabled (items (mark i b s) ! k) = disabled (items s ! k)"
  "k < length (items s) \<Longrightarrow> item_value (items (mark i b s) ! k) = item_value (items s ! k)"
  "k < length (items s) \<Longrightarrow> content (items (mark i b s) ! k) = content (items s ! k)"
  "k < length (items s) \<Longrightarrow> views (items (mark i b s) ! k) = views (items s ! k)"
  "k < length (items s) \<Longrightarrow> tag (items (mark i b s) ! k) = tag (items s ! k)"
  by (cases "i < length (items s)"; simp add: mark_def update_item_def nth_list_update list_update_beyond)+

lemma getAllSelected_set:
  "set (getAllSelected s) = {k. k < length (items s) \<and> selected (items s ! k)}"
  by (auto simp: getAllSelected_def getAll_def)

lemma getAllSelected_distinct: "distinct (getAllSelected s)"
  by (simp add: getAllSelected_def getAll_def)

lemma getAllSelected_Nil: "getAllSelected s = [] \<longleftrightarrow> \<not> any_selected s"
proof -
  have "getAllSelected s = [] \<longleftrightarrow> set (getAllSelected s) = {}" by simp
  then show ?thesis unfolding getAllSelected_set any_selected_def by blast
qed

lemma selectedItem_None: "selectedItem s = None \<longleftrightarrow> \<not> any_selected s"
  by (simp add: selectedItem_def getFirstSelected_def getLastSelected_def
        getAllSelected_Nil[symmetric] split: list.splits)

lemma selectedItem_Some:
  "selectedItem s = Some k \<Longrightarrow> k < length (items s) \<and> selected (items s ! k)"
proof -
  assume a: "selectedItem s = Some k"
  have "k \<in> set (getAllSelected s)"
  proof (cases "multiple s")
    case True
    with a show ?thesis
      by (auto simp: selectedItem_def getFirstSelected_def split: list.splits)
  next
    case False
    with a have "rev (getAllSelected s) \<noteq> [] \<and> hd (rev (getAllSelected s)) = k"
      by (auto simp: selectedItem_def getLastSelected_def split: list.splits)
    then have "k \<in> set (rev (getAllSelected s))"
      using hd_in_set by blast
    then show ?thesis by simp
  qed
  then show ?thesis by (simp add: getAllSelected_set)
qed

lemma core_any_selected:
  assumes c: "core s' = core s"
  shows "any_selected s' = any_selected s"
  using selectedItem_None[of s'] selectedItem_None[of s] core_selectedItem[OF c] by simp

lemma core_deselected [simp]: "core (deselected j s) = core (mark j False s)"
  by (simp add: deselected_def mark_def)

lemma write_remove:
  assumes "j < length (items s)" and "selected (items s ! j)"
    and "\<not> auto_needed (mark j False s)"
  shows "set_item_selected (Suc n) s j Remove_attribute = Inr (deselected j s)"
proof -
  let ?t = "update_item j (\<lambda>it. it\<lparr>selected := False\<rparr>) s"
  have "\<not> selected (items ?t ! j)"
    using assms(1) by (simp add: update_item_nth)
  moreover have "\<not> auto_needed ?t"
    using assms(3) by (simp add: mark_def)
  ultimately have "onItemSelectedChange (set_item_selected n) j ?t = Inr (deselected j s)"
    by (simp add: handler_deselect deselected_def)
  then show ?thesis using assms(1,2) by (simp add: set_item_selected_Suc)
qed

lemma auto_needed_selected:
  "k < length (items s) \<Longrightarrow> selected (items s ! k) \<Longrightarrow> \<not> auto_needed s"
  by (auto simp: auto_needed_def selectedItem_None any_selected_def)

lemma deselected_facts:
  assumes "j < length (items s)"
  shows "length (items (deselected j s)) = length (items s)"
    and "k < length (items s) \<Longrightarrow>
         selected (items (deselected j s) ! k) = (k \<noteq> j \<and> selected (items s ! k))"
    and "multiple (deselected j s) = multiple s"
proof -
  have c: "core (deselected j s) = core (mark j False s)" by simp
  show "length (items (deselected j s)) = length (items s)"
    using coreD(1)[OF c] by simp
  show "k < length (items s) \<Longrightarrow>
         selected (items (deselected j s) ! k) = (k \<noteq> j \<and> selected (items s ! k))"
    using coreD(6)[OF c, of k] assms by auto
  show "multiple (deselected j s) = multiple s"
    using coreD(2)[OF c] by simp
qed

lemma each_deselect:
  assumes w: "\<And>s' j. j \<in> set js \<Longrightarrow> j < length (items s') \<Longrightarrow> selected (items s' ! j) \<Longrightarrow>
                \<not> auto_needed (mark j False s') \<Longrightarrow>
                w s' j Remove_attribute = Inr (deselected j s')"
    and "distinct js"
    and "\<forall>j\<in>set js. j < length (items s) \<and> selected (items s ! j) \<and> j \<noteq> i"
    and "i < length (items s)" and "selected (items s ! i)"
  shows "each (\<lambda>j s'. w s' j Remove_attribute) js s = Inr (fold deselected js s)"
  using assms
proof (induction js arbitrary: s)
  case Nil
  then show ?case by simp
next
  case (Cons j js)
  have j: "j < length (items s)" "selected (items s ! j)" "j \<noteq> i"
    using Cons.prems by auto
  have "\<not> auto_needed (mark j False s)"
    using auto_needed_selected[of i "mark j False s"] Cons.prems j by simp
  then have step: "w s j Remove_attribute = Inr (deselected j s)"
    using Cons.prems(1)[of j s] j by simp
  have "each (\<lambda>j s'. w s' j Remove_attribute) js (deselected j s)
        = Inr (fold deselected js (deselected j s))"
  proof (rule Cons.IH)
    show "\<And>s' j'. j' \<in> set js \<Longrightarrow> j' < length (items s') \<Longrightarrow> selected (items s' ! j') \<Longrightarrow>
                \<not> auto_needed (mark j' False s') \<Longrightarrow>
                w s' j' Remove_attribute = Inr (deselected j' s')"
      using Cons.prems(1) by simp
    show "distinct js" using Cons.prems by simp
    show "\<forall>j'\<in>set js. j' < length (items (deselected j s))
            \<and> selected (items (deselected j s) ! j') \<and> j' \<noteq> i"
      using Cons.prems j by (auto simp: deselected_facts)
    show "i < length (items (deselected j s))"
      using Cons.prems j by (simp add: deselected_facts)
    show "selected (items (deselected j s) ! i)"
      using Cons.prems j by (simp add: deselected_facts)
  qed
  with step show ?case by simp
qed

lemma fold_deselected_facts:
  assumes "\<forall>j\<in>set js. j < length (items s)"
  shows "length (items (fold deselected js s)) = length (items s)
       \<and> multiple (fold deselected js s) = multiple s
       \<and> (\<forall>k < length (items s).
            selected (items (fold deselected js s) ! k) = (k \<notin> set js \<and> selected (items s ! k)))"
  using assms
proof (induction js arbitrary: s)
  case Nil
  then show ?case by simp
next
  case (Cons j js)
  have j: "j < length (items s)" using Cons.prems by simp
  have "\<forall>j'\<in>set js. j' < length (items (deselected j s))"
    using Cons.prems j by (simp add: deselected_facts)
  from Cons.IH[OF this] show ?case
    using j by (auto simp: deselected_facts)
qed

lemma handler_select_single:
  assumes w: "\<And>s' j. j \<in> set (filter (\<lambda>j. j \<noteq> i) (getAllSelected s)) \<Longrightarrow>
                j < length (items s') \<Longrightarrow> selected (items s' ! j) \<Longrightarrow>
                \<not> auto_needed (mark j False s') \<Longrightarrow>
                w s' j Remove_attribute = Inr (deselected j s')"
    and i: "i < length (items s)" "selected (items s ! i)" and m: "\<not> multiple s"
  shows "onItemSelectedChange w i s = Inr (selected_alone i s)"
proof -
  let ?s2 = "onItemSelected i (s\<lparr>bulkSelectionChange := True\<rparr>)"
  let ?js = "filter (\<lambda>j. j \<noteq> i) (getAllSelected s)"
  have c: "core ?s2 = core s" by simp
  have gs: "getAllSelected ?s2 = getAllSelected s"
    by (rule core_getAllSelected[OF c])
  have js: "\<forall>j\<in>set ?js. j < length (items ?s2) \<and> selected (items ?s2 ! j) \<and> j \<noteq> i"
    using coreD(1)[OF c] coreD(6)[OF c] by (auto simp: getAllSelected_set)
  have i2: "i < length (items ?s2)" "selected (items ?s2 ! i)"
    using i coreD(1)[OF c] coreD(6)[OF c] by auto
  have e: "each (\<lambda>j s'. w s' j Remove_attribute) ?js ?s2 = Inr (fold deselected ?js ?s2)"
  proof (rule each_deselect[where i = i and js = "?js" and w = w])
    show "\<And>s' j. j \<in> set ?js \<Longrightarrow> j < length (items s') \<Longrightarrow> selected (items s' ! j) \<Longrightarrow>
                \<not> auto_needed (mark j False s') \<Longrightarrow>
                w s' j Remove_attribute = Inr (deselected j s')"
      using w by blast
    show "distinct ?js" by (simp add: getAllSelected_distinct)
  qed (use js i2 in blast)+
  have jl: "\<forall>j\<in>set ?js. j < length (items ?s2)" using js by blast
  let ?s3 = "(fold deselected ?js ?s2)\<lparr>bulkSelectionChange := False\<rparr>"
  have "i < length (items ?s3) \<and> selected (items ?s3 ! i)"
    using fold_deselected_facts[OF jl] i2 by simp
  then have na: "\<not> auto_needed ?s3"
    using auto_needed_selected by blast
  have m2: "\<not> multiple ?s2" using m coreD(2)[OF c] by simp
  show ?thesis
    using i m2 e na
    by (simp add: onItemSelectedChange_def deselectAllExcept_def gs updateLabel_def
          sync_relabel selected_alone_def Let_def)
qed

lemma write_set_single:
  assumes "i < length (items s)" and "\<not> multiple s"
  shows "set_item_selected (Suc (Suc n)) s i Set_attribute = Inr (selected_alone i (mark i True s))"
    and "set_item_selected (Suc (Suc n)) s i (Set_property True) = Inr (selected_alone i (mark i True s))"
proof -
  have "onItemSelectedChange (set_item_selected (Suc n)) i (mark i True s)
        = Inr (selected_alone i (mark i True s))"
  proof (rule handler_select_single)
    show "\<And>s' j. j < length (items s') \<Longrightarrow> selected (items s' ! j) \<Longrightarrow>
                \<not> auto_needed (mark j False s') \<Longrightarrow>
                set_item_selected (Suc n) s' j Remove_attribute = Inr (deselected j s')"
      by (rule write_remove)
  qed (use assms in simp_all)
  then show "set_item_selected (Suc (Suc n)) s i Set_attribute = Inr (selected_alone i (mark i True s))"
    and "set_item_selected (Suc (Suc n)) s i (Set_property True) = Inr (selected_alone i (mark i True s))"
    using assms by (simp_all add: mark_def set_item_selected_Suc)
qed

lemma write_set_single_first:
  assumes "i < length (items s)" and "\<not> multiple s" and "\<not> any_selected s"
  shows "set_item_selected (Suc n) s i Set_attribute = Inr (selected_alone i (mark i True s))"
proof -
  have "getAllSelected (mark i True s) = [i] \<or> filter (\<lambda>j. j \<noteq> i) (getAllSelected (mark i True s)) = []"
  proof -
    have "set (filter (\<lambda>j. j \<noteq> i) (getAllSelected (mark i True s))) = {}"
      using assms by (auto simp: getAllSelected_set any_selected_def split: if_splits)
    then show ?thesis by simp
  qed
  then have e: "filter (\<lambda>j. j \<noteq> i) (getAllSelected (mark i True s)) = []"
    by auto
  have "onItemSelectedChange (set_item_selected n) i (mark i True s)
        = Inr (selected_alone i (mark i True s))"
    by (rule handler_select_single) (use assms e in simp_all)
  then show ?thesis using assms by (simp add: mark_def set_item_selected_Suc)
qed

lemma relabel_fields [simp]:
  "items (relabel s) = items s"
  "multiple (relabel s) = multiple s"
  "placeholder (relabel s) = placeholder s"
  "bulkSelectionChange (relabel s) = bulkSelectionChange s"
  "initialValues (relabel s) = initialValues s"
  "overlay_open (relabel s) = overlay_open s"
  "taglist (relabel s) = taglist s"
  "trace (relabel s) = trace s"
  by (simp_all add: relabel_def split: option.splits)

lemma relabel_input:
  "any_selected s \<or> multiple s \<or> placeholder s \<noteq> [] \<Longrightarrow> input_value (relabel s) = input_value s"
  by (auto simp: relabel_def selectedItem_None split: option.splits)

lemma helper_length [simp]:
  "length (items (addTagToTagList i s)) = length (items s)"
  "length (items (removeTagFromTagList i d s)) = length (items s)"
  "length (items (onItemAdded i s)) = length (items s)"
  "length (items (write_views i b s)) = length (items s)"
  "length (items (set_hidden i b s)) = length (items s)"
  "length (items (onItemSelected i s)) = length (items s)"
  "length (items (onItemDeselected i s)) = length (items s)"
  by (simp_all add: addTagToTagList_def removeTagFromTagList_def onItemAdded_def write_views_def
        set_hidden_def onItemSelected_def onItemDeselected_def Let_def)

lemma helper_multiple [simp]:
  "multiple (addTagToTagList i s) = multiple s"
  "multiple (removeTagFromTagList i d s) = multiple s"
  "multiple (onItemAdded i s) = multiple s"
  "multiple (write_views i b s) = multiple s"
  "multiple (set_hidden i b s) = multiple s"
  "multiple (onItemSelected i s) = multiple s"
  "multiple (onItemDeselected i s) = multiple s"
  by (simp_all add: addTagToTagList_def removeTagFromTagList_def onItemAdded_def write_views_def
        set_hidden_def onItemSelected_def onItemDeselected_def Let_def)

lemma helper_other:
  "k \<noteq> i \<Longrightarrow> items (addTagToTagList i s) ! k = items s ! k"
  "k \<noteq> i \<Longrightarrow> items (removeTagFromTagList i d s) ! k = items s ! k"
  "k \<noteq> i \<Longrightarrow> items (onItemAdded i s) ! k = items s ! k"
  "k \<noteq> i \<Longrightarrow> items (write_views i b s) ! k = items s ! k"
  "k \<noteq> i \<Longrightarrow> items (set_hidden i b s) ! k = items s ! k"
  by (simp_all add: addTagToTagList_def removeTagFromTagList_def onItemAdded_def write_views_def
        set_hidden_def Let_def update_item_def)

lemma helper_other2:
  "k \<noteq> i \<Longrightarrow> items (onItemSelected i s) ! k = items s ! k"
  "k \<noteq> i \<Longrightarrow> items (onItemDeselected i s) ! k = items s ! k"
  by (simp_all add: onItemSelected_def onItemDeselected_def Let_def helper_other)

lemma helper_views:
  "i < length (items s) \<Longrightarrow> views (items (onItemAdded i s) ! i) \<noteq> None"
  "views (items (write_views i b s) ! i) = None \<longleftrightarrow> views (items s ! i) = None"
  "views (items (set_hidden i b s) ! i) = None \<longleftrightarrow> views (items s ! i) = None"
  "views (items (addTagToTagList i s) ! i) = views (items s ! i)"
  "views (items (removeTagFromTagList i d s) ! i) = views (items s ! i)"
  by (cases "i < length (items s)";
      simp add: addTagToTagList_def removeTagFromTagList_def onItemAdded_def write_views_def
        set_hidden_def Let_def update_item_def list_update_beyond)+

lemma helper_views2:
  "i < length (items s) \<Longrightarrow> views (items (onItemSelected i s) ! i) \<noteq> None"
  "i < length (items s) \<Longrightarrow> views (items (onItemDeselected i s) ! i) \<noteq> None"
  by (simp_all add: onItemSelected_def onItemDeselected_def Let_def
        addTagToTagList_def removeTagFromTagList_def onItemAdded_def write_views_def
        set_hidden_def update_item_def trigger_def)

lemma onItemSelected_input:
  "i < length (items s) \<Longrightarrow> \<not> multiple s \<Longrightarrow>
     input_value (onItemSelected i s) = item_value (items s ! i)"
proof -
  assume a: "i < length (items s)" "\<not> multiple s"
  let ?s1 = "if views (items s ! i) = None then onItemAdded i s else s"
  have c: "core ?s1 = core s" by simp
  have c2: "core (write_views i True ?s1) = core s" by simp
  show ?thesis
    using a coreD(8)[OF c2, of i] by (simp add: onItemSelected_def Let_def)
qed

lemma helper_trace:
  "trace (addTagToTagList i s) = trace s"
  "trace (removeTagFromTagList i d s) = trace s"
  "trace (onItemAdded i s) = trace s"
  "trace (write_views i b s) = trace s @ [Entry_write i b (bulkSelectionChange s)]"
  "trace (set_hidden i b s) = trace s"
  by (simp_all add: addTagToTagList_def removeTagFromTagList_def onItemAdded_def write_views_def
        set_hidden_def Let_def)

lemma helper_trace2:
  "trace (onItemSelected i s) = trace s @ [Entry_write i True (bulkSelectionChange s)]"
  "trace (onItemDeselected i s) = trace s @ [Entry_write i False (bulkSelectionChange s)]"
  by (simp_all add: onItemSelected_def onItemDeselected_def Let_def helper_trace)

lemma onItemDeselected_input:
  "\<not> selected (items s ! j) \<Longrightarrow> input_value (onItemDeselected j s) = input_value s"
  by (simp add: onItemDeselected_def onItemAdded_def write_views_def set_hidden_def
        removeTagFromTagList_def Let_def)

lemma selected_alone_core:
  assumes "i < length (items s)" and "selected (items s ! i)"
  shows "length (items (selected_alone i s)) = length (items s)"
    and "multiple (selected_alone i s) = multiple s"
    and "\<forall>k < length (items s). selected (items (selected_alone i s) ! k) = (k = i)"
proof -
  let ?s2 = "onItemSelected i (s\<lparr>bulkSelectionChange := True\<rparr>)"
  let ?js = "filter (\<lambda>j. j \<noteq> i) (getAllSelected s)"
  have c: "core ?s2 = core s" by simp
  have jl: "\<forall>j\<in>set ?js. j < length (items ?s2)"
    by (auto simp: getAllSelected_set)
  note f = fold_deselected_facts[OF jl]
  show "length (items (selected_alone i s)) = length (items s)"
    using f by (simp add: selected_alone_def)
  show "multiple (selected_alone i s) = multiple s"
    using f by (simp add: selected_alone_def)
  show "\<forall>k < length (items s). selected (items (selected_alone i s) ! k) = (k = i)"
    using f coreD(6)[OF c] assms by (auto simp: selected_alone_def getAllSelected_set)
qed

lemma selectedItem_single:
  assumes "i < length (items s)" and "\<forall>k < length (items s). selected (items s ! k) = (k = i)"
  shows "selectedItem s = Some i"
proof -
  have "any_selected s" using assms by (auto simp: any_selected_def)
  then obtain k where k: "selectedItem s = Some k"
    using selectedItem_None[of s] by auto
  from selectedItem_Some[OF k] assms(2) have "k = i" by auto
  with k show ?thesis by simp
qed

lemma placeholder_set_self:
  "placeholder_set w (placeholder s) s =
     (if placeholder s \<noteq> [] \<and> (multiple s \<or> selectedItem s = None)
      then Inr (s\<lparr>is_placeholder := True, label := placeholder s\<rparr>)
      else if multiple s
      then Inr (s\<lparr>is_placeholder := True, label := i18n_get ''Select''\<rparr>)
      else if selectedItem s = None
      then (case getFirstSelectable s of
              Some k \<Rightarrow>
                (case w (s\<lparr>input_value := [], is_placeholder := False\<rparr>) k Set_attribute of
                   Inl e \<Rightarrow> Inl e
                 | Inr s4 \<Rightarrow> Inr (s4\<lparr>label := content (items s4 ! k)\<rparr>))
            | None \<Rightarrow> Inr (s\<lparr>input_value := [], is_placeholder := False, label := []\<rparr>))
      else Inr s)"
proof -
  have sp: "s\<lparr>placeholder := placeholder s\<rparr> = s" by simp
  have fs: "getFirstSelectable (s\<lparr>input_value := []\<rparr>) = getFirstSelectable s"
    by (simp add: getFirstSelectable_def getAll_def)
  show ?thesis
    unfolding placeholder_set_def Let_def sp fs by simp
qed

lemma sync_auto:
  assumes a: "auto_needed s" and k: "getFirstSelectable s = Some k"
    and w: "\<And>s'. k < length (items s') \<Longrightarrow> \<not> multiple s' \<Longrightarrow> \<not> any_selected s' \<Longrightarrow>
              w s' k Set_attribute = Inr (selected_alone k (mark k True s'))"
  shows "syncSelectedItemPlaceholder w s = Inr (auto_selected k s)"
proof -
  let ?s3 = "s\<lparr>input_value := [], is_placeholder := False\<rparr>"
  let ?s4 = "selected_alone k (mark k True ?s3)"
  have kl: "k < length (items s)"
    using k by (auto simp: getFirstSelectable_def getAll_def dest: find_Some_iff[THEN iffD1])
  have ns: "\<not> any_selected ?s3" "\<not> multiple ?s3"
    using a by (simp_all add: auto_needed_def selectedItem_None[symmetric])
  have ws: "w ?s3 k Set_attribute = Inr ?s4"
    using w[of ?s3] kl ns by simp
  have mk: "k < length (items (mark k True ?s3))" "selected (items (mark k True ?s3) ! k)"
    using kl by simp_all
  note sa = selected_alone_core[OF mk]
  have "selectedItem ?s4 = Some k"
    by (rule selectedItem_single) (use sa kl in simp_all)
  then have si: "selectedItem (?s4\<lparr>label := content (items ?s4 ! k)\<rparr>) = Some k"
    by simp
  have m4: "\<not> multiple ?s4" using sa(2) ns by simp
  have ps: "placeholder_set w (placeholder s) s = Inr (?s4\<lparr>label := content (items ?s4 ! k)\<rparr>)"
    using a k ws by (subst placeholder_set_self) (simp add: auto_needed_def)
  show ?thesis
    unfolding syncSelectedItemPlaceholder_def ps
    using si m4 by (simp add: auto_selected_def Let_def)
qed

lemma handler_closed:
  assumes "i < length (items s)"
  shows "onItemSelectedChange (set_item_selected (Suc n)) i s = Inr (handled i s)"
proof (cases "selected (items s ! i)")
  case True
  show ?thesis
  proof (cases "multiple s")
    case m: True
    with True show ?thesis by (simp add: handler_select_multiple handled_def)
  next
    case m: False
    have "onItemSelectedChange (set_item_selected (Suc n)) i s = Inr (selected_alone i s)"
    proof (rule handler_select_single)
      show "\<And>s' j. j < length (items s') \<Longrightarrow> selected (items s' ! j) \<Longrightarrow>
                \<not> auto_needed (mark j False s') \<Longrightarrow>
                set_item_selected (Suc n) s' j Remove_attribute = Inr (deselected j s')"
        by (rule write_remove)
    qed (use assms True m in simp_all)
    with True m show ?thesis by (simp add: handled_def)
  qed
next
  case False
  let ?s1 = "(onItemDeselected i (s\<lparr>bulkSelectionChange := True\<rparr>))\<lparr>bulkSelectionChange := False\<rparr>"
  show ?thesis
  proof (cases "auto_needed ?s1")
    case a: True
    then obtain k where k: "getFirstSelectable ?s1 = Some k"
      by (auto simp: auto_needed_def)
    have "syncSelectedItemPlaceholder (set_item_selected (Suc n)) ?s1 = Inr (auto_selected k ?s1)"
    proof (rule sync_auto[OF a k])
      show "\<And>s'. k < length (items s') \<Longrightarrow> \<not> multiple s' \<Longrightarrow> \<not> any_selected s' \<Longrightarrow>
              set_item_selected (Suc n) s' k Set_attribute = Inr (selected_alone k (mark k True s'))"
        by (rule write_set_single_first)
    qed
    with False a k show ?thesis
      by (simp add: onItemSelectedChange_def updateLabel_def handled_def Let_def)
  next
    case a: False
    then have "syncSelectedItemPlaceholder (set_item_selected (Suc n)) ?s1 = Inr (relabel ?s1)"
      by (rule sync_relabel)
    with False a show ?thesis
      by (simp add: onItemSelectedChange_def updateLabel_def handled_def Let_def)
  qed
qed

lemma writer_closed: "set_item_selected (Suc (Suc n)) s i wr = Inr (written i wr s)"
proof (cases "length (items s) \<le> i")
  case True
  then show ?thesis by (simp add: written_def set_item_selected_Suc)
next
  case False
  then have "\<And>b. onItemSelectedChange (set_item_selected (Suc n)) i (mark i b s)
              = Inr (handled i (mark i b s))"
    by (simp add: handler_closed)
  then have "\<And>b. onItemSelectedChange (set_item_selected (Suc n)) i
                (update_item i (\<lambda>it. it\<lparr>selected := b\<rparr>) s) = Inr (handled i (mark i b s))"
    by (simp add: mark_def)
  with False show ?thesis
    by (cases wr) (simp_all add: written_def set_item_selected_Suc[of "Suc n"])
qed

subsection \<open>What a write leaves fixed\<close>

lemma fixedD:
  assumes "fixed s' = fixed s"
  shows "length (items s') = length (items s)" "multiple s' = multiple s"
    "placeholder s' = placeholder s" "initialValues s' = initialValues s"
    "i < length (items s) \<Longrightarrow> disabled (items s' ! i) = disabled (items s ! i)"
    "i < length (items s) \<Longrightarrow> item_value (items s' ! i) = item_value (items s ! i)"
    "i < length (items s) \<Longrightarrow> content (items s' ! i) = content (items s ! i)"
proof -
  have m: "map (\<lambda>it. (item_value it, content it, disabled it)) (items s')
         = map (\<lambda>it. (item_value it, content it, disabled it)) (items s)"
    using assms by (simp add: fixed_def)
  show len: "length (items s') = length (items s)"
    using arg_cong[OF m, of length] by simp
  show "multiple s' = multiple s" "placeholder s' = placeholder s"
    "initialValues s' = initialValues s"
    using assms by (simp_all add: fixed_def)
  have nth: "(item_value (items s' ! i), content (items s' ! i), disabled (items s' ! i))
     = (item_value (items s ! i), content (items s ! i), disabled (items s ! i))"
    if "i < length (items s)"
    using that len arg_cong[OF m, of "\<lambda>xs. xs ! i"] by simp
  show "i < length (items s) \<Longrightarrow> disabled (items s' ! i) = disabled (items s ! i)"
    "i < length (items s) \<Longrightarrow> item_value (items s' ! i) = item_value (items s ! i)"
    "i < length (items s) \<Longrightarrow> content (items s' ! i) = content (items s ! i)"
    using nth by simp_all
qed

lemma core_fixed: "core s' = core s \<Longrightarrow> fixed s' = fixed s"
proof -
  assume c: "core s' = core s"
  have "map (\<lambda>it. (item_value it, content it, disabled it)) (items s')
      = map (\<lambda>it. (item_value it, content it, disabled it)) (items s)"
    by (rule nth_equalityI) (simp_all add: coreD(1)[OF c] coreD(7,8,9)[OF c])
  then show ?thesis
    by (simp add: fixed_def coreD(2,3,4)[OF c])
qed

lemma fixed_mark [simp]: "fixed (mark i b s) = fixed s"
proof -
  have "map (\<lambda>it. (item_value it, content it, disabled it)) (items (mark i b s))
      = map (\<lambda>it. (item_value it, content it, disabled it)) (items s)"
    by (rule nth_equalityI) simp_all
  then show ?thesis by (simp add: fixed_def)
qed

lemma fixed_getFirstSelectable:
  assumes f: "fixed s' = fixed s"
  shows "getFirstSelectable s' = getFirstSelectable s"
proof -
  have "List.find (\<lambda>i. \<not> disabled (items s' ! i)) [0..<length (items s)]
      = List.find (\<lambda>i. \<not> disabled (items s ! i)) [0..<length (items s)]"
    by (rule find_cong) (simp_all add: fixedD(5)[OF f])
  then show ?thesis
    by (simp add: getFirstSelectable_def getAll_def fixedD(1)[OF f])
qed

lemma fixed_fields [simp]:
  "fixed (s\<lparr>input_value := v\<rparr>) = fixed s"
  "fixed (s\<lparr>label := l\<rparr>) = fixed s"
  "fixed (s\<lparr>is_placeholder := b\<rparr>) = fixed s"
  "fixed (s\<lparr>bulkSelectionChange := b\<rparr>) = fixed s"
  "fixed (s\<lparr>taglist := t\<rparr>) = fixed s"
  "fixed (s\<lparr>trace := e\<rparr>) = fixed s"
  "fixed (trigger ef s) = fixed s"
  "fixed (s\<lparr>overlay_open := ov\<rparr>) = fixed s"
  by (simp_all add: fixed_def trigger_def)

lemma fixed_helpers [simp]:
  "fixed (onItemSelected i s) = fixed s"
  "fixed (onItemDeselected i s) = fixed s"
  "fixed (relabel s) = fixed s"
  "fixed (onItemAdded i s) = fixed s"
  by (rule core_fixed, simp)+

lemma fixed_deselected [simp]: "fixed (deselected j s) = fixed s"
  using core_fixed[OF core_deselected, of j s] by simp

lemma fixed_fold_deselected [simp]: "fixed (fold deselected js s) = fixed s"
  by (induction js arbitrary: s) simp_all

lemma fixed_selected_alone [simp]: "fixed (selected_alone i s) = fixed s"
  by (simp add: selected_alone_def)

lemma fixed_auto_selected [simp]: "fixed (auto_selected k s) = fixed s"
  by (simp add: auto_selected_def Let_def)

lemma fixed_handled [simp]: "fixed (handled i s) = fixed s"
  by (simp add: handled_def Let_def split: option.splits)

lemma fixed_written [simp]: "fixed (written i wr s) = fixed s"
  by (simp add: written_def split: item_write.splits)

subsection \<open>The selection after a write\<close>

lemma sel_set_core: "core s' = core s \<Longrightarrow> sel_set s' = sel_set s"
  using coreD(1)[of s' s] coreD(6)[of s' s] by (auto simp: sel_set_def)

lemma sel_set_mark:
  "i < length (items s) \<Longrightarrow>
     sel_set (mark i b s) = (if b then insert i (sel_set s) else sel_set s - {i})"
  by (auto simp: sel_set_def split: if_splits)

lemma any_selected_sel_set: "any_selected s \<longleftrightarrow> sel_set s \<noteq> {}"
  by (auto simp: any_selected_def sel_set_def)

lemma sel_set_selected_alone:
  "i < length (items s) \<Longrightarrow> selected (items s ! i) \<Longrightarrow> sel_set (selected_alone i s) = {i}"
  using selected_alone_core[of i s] by (auto simp: sel_set_def)

lemma sel_set_relabel [simp]: "sel_set (relabel s) = sel_set s"
  by (simp add: sel_set_def)

lemma sel_set_fields [simp]:
  "sel_set (s\<lparr>bulkSelectionChange := b\<rparr>) = sel_set s"
  "sel_set (s\<lparr>input_value := v\<rparr>) = sel_set s"
  "sel_set (s\<lparr>is_placeholder := b\<rparr>) = sel_set s"
  "sel_set (s\<lparr>label := l\<rparr>) = sel_set s"
  "sel_set (trigger e s) = sel_set s"
  by (simp_all add: sel_set_def)

lemma sel_set_helpers [simp]:
  "sel_set (onItemSelected i s) = sel_set s"
  "sel_set (onItemDeselected i s) = sel_set s"
  by (rule sel_set_core, simp)+

lemma sel_set_auto_selected:
  "k < length (items s) \<Longrightarrow> sel_set (auto_selected k s) = {k}"
  by (simp add: auto_selected_def Let_def sel_set_selected_alone)

lemma getFirstSelectable_less: "getFirstSelectable s = Some k \<Longrightarrow> k < length (items s)"
  by (auto simp: getFirstSelectable_def getAll_def dest: find_Some_iff[THEN iffD1])

lemma auto_needed_iff:
  "auto_needed s \<longleftrightarrow> placeholder s = [] \<and> \<not> multiple s \<and> sel_set s = {}
      \<and> getFirstSelectable s \<noteq> None"
  by (simp add: auto_needed_def selectedItem_None any_selected_sel_set)

lemma sel_set_handled:
  assumes "i < length (items s)"
  shows "sel_set (handled i s) =
     (if selected (items s ! i) then (if multiple s then sel_set s else {i})
      else if sel_set s = {} \<and> placeholder s = [] \<and> \<not> multiple s
      then (case getFirstSelectable s of Some k \<Rightarrow> {k} | None \<Rightarrow> {})
      else sel_set s)"
proof (cases "selected (items s ! i)")
  case True
  then show ?thesis using assms by (simp add: handled_def sel_set_selected_alone)
next
  case False
  let ?s1 = "(onItemDeselected i (s\<lparr>bulkSelectionChange := True\<rparr>))\<lparr>bulkSelectionChange := False\<rparr>"
  have c: "core ?s1 = core s" by simp
  have an: "auto_needed ?s1 = auto_needed s" by (rule core_auto_needed[OF c])
  have fs: "getFirstSelectable ?s1 = getFirstSelectable s"
    by (rule core_getFirstSelectable[OF c])
  show ?thesis
  proof (cases "auto_needed s")
    case a: True
    then obtain k where k: "getFirstSelectable s = Some k" by (auto simp: auto_needed_def)
    have "k < length (items ?s1)" using getFirstSelectable_less[OF k] by simp
    then have "sel_set (auto_selected k ?s1) = {k}" by (rule sel_set_auto_selected)
    with False a k an fs show ?thesis
      by (simp add: handled_def Let_def auto_needed_iff)
  next
    case a: False
    have "sel_set (relabel ?s1) = sel_set s" by simp
    with False a an show ?thesis
      by (auto simp: handled_def Let_def auto_needed_iff split: option.splits)
  qed
qed

lemma sel_set_handled_mark:
  assumes "i < length (items s)"
  shows "sel_set (handled i (mark i b s)) = next_sel s i b"
proof -
  have fs: "getFirstSelectable (mark i b s) = getFirstSelectable s"
    by (rule fixed_getFirstSelectable) simp
  show ?thesis
    using assms sel_set_handled[of i "mark i b s", unfolded fs]
    by (auto simp: next_sel_def sel_set_mark Let_def)
qed

lemma sel_set_written:
  assumes "i < length (items s)"
  shows "sel_set (written i wr s) =
     (case wr of
        Set_attribute \<Rightarrow> next_sel s i True
      | Set_property b \<Rightarrow> next_sel s i b
      | Remove_attribute \<Rightarrow> if i \<in> sel_set s then next_sel s i False else sel_set s)"
  using assms
  by (cases wr) (auto simp: written_def sel_set_handled_mark, auto simp: sel_set_def)


lemma written_remove_unselected:
  "i \<notin> sel_set s \<Longrightarrow> written i Remove_attribute s = s"
  by (auto simp: written_def sel_set_def)

lemma length_written [simp]: "length (items (written i wr s)) = length (items s)"
  using fixedD(1)[OF fixed_written] .

lemma multiple_written [simp]: "multiple (written i wr s) = multiple s"
  using fixedD(2)[OF fixed_written] .

lemma placeholder_written [simp]: "placeholder (written i wr s) = placeholder s"
  using fixedD(3)[OF fixed_written] .

lemma initialValues_written [simp]: "initialValues (written i wr s) = initialValues s"
  using fixedD(4)[OF fixed_written] .

lemma getFirstSelectable_written [simp]:
  "getFirstSelectable (written i wr s) = getFirstSelectable s"
  by (rule fixed_getFirstSelectable) simp

lemma item_value_written [simp]:
  "k < length (items s) \<Longrightarrow> item_value (items (written i wr s) ! k) = item_value (items s ! k)"
  using fixedD(6)[OF fixed_written] .

lemma content_written [simp]:
  "k < length (items s) \<Longrightarrow> content (items (written i wr s) ! k) = content (items s ! k)"
  using fixedD(7)[OF fixed_written] .

lemma bulk_relabel_False [simp]:
  "bulkSelectionChange (relabel (s\<lparr>bulkSelectionChange := False\<rparr>)) = False"
  by simp

lemma bulk_selected_alone [simp]: "bulkSelectionChange (selected_alone i s) = False"
  by (simp add: selected_alone_def)

lemma bulk_auto_selected [simp]: "bulkSelectionChange (auto_selected k s) = False"
  by (simp add: auto_selected_def Let_def)

lemma bulk_handled [simp]: "bulkSelectionChange (handled i s) = False"
  by (simp add: handled_def Let_def split: option.splits)

lemma bulk_written:
  "bulkSelectionChange (written i wr s) = False \<or> written i wr s = s"
  by (simp add: written_def split: item_write.splits)

lemma helper_selected [simp]:
  "k < length (items s) \<Longrightarrow> selected (items (onItemSelected i s) ! k) = selected (items s ! k)"
  "k < length (items s) \<Longrightarrow> selected (items (onItemDeselected i s) ! k) = selected (items s ! k)"
  using coreD(6)[OF core_onItemSelected] coreD(6)[OF core_onItemDeselected] by blast+

lemma input_deselected:
  assumes "j < length (items s)" and "sel_set s - {j} \<noteq> {} \<or> multiple s \<or> placeholder s \<noteq> []"
  shows "input_value (deselected j s) = input_value s"
proof -
  let ?t = "(mark j False s)\<lparr>bulkSelectionChange := True\<rparr>"
  let ?u = "(onItemDeselected j ?t)\<lparr>bulkSelectionChange := False\<rparr>"
  have c: "core ?u = core (mark j False s)" by simp
  have "sel_set ?u = sel_set s - {j}"
    using sel_set_core[OF c] assms(1) by (simp add: sel_set_mark)
  moreover have "multiple ?u = multiple s" "placeholder ?u = placeholder s"
    using coreD(2,3)[OF c] by simp_all
  ultimately have "any_selected ?u \<or> multiple ?u \<or> placeholder ?u \<noteq> []"
    using assms(2) by (simp add: any_selected_sel_set)
  then have "input_value (relabel ?u) = input_value ?u" by (rule relabel_input)
  moreover have "input_value (onItemDeselected j ?t) = input_value ?t"
    by (rule onItemDeselected_input) (use assms(1) in simp)
  ultimately show ?thesis by (simp add: deselected_def mark_def)
qed

lemma sel_set_deselected:
  "j < length (items s) \<Longrightarrow> sel_set (deselected j s) = sel_set s - {j}"
  using sel_set_core[OF core_deselected, of j s] by (simp add: sel_set_mark)

lemma length_deselected [simp]: "length (items (deselected j s)) = length (items s)"
  using fixedD(1)[OF fixed_deselected] .

lemma multiple_deselected [simp]: "multiple (deselected j s) = multiple s"
  using fixedD(2)[OF fixed_deselected] .

lemma input_fold_deselected:
  assumes "\<forall>j\<in>set js. j < length (items s)" and "i \<in> sel_set s" and "i \<notin> set js"
  shows "input_value (fold deselected js s) = input_value s"
  using assms
proof (induction js arbitrary: s)
  case Nil
  then show ?case by simp
next
  case (Cons j js)
  have j: "j < length (items s)" "j \<noteq> i" using Cons.prems by auto
  have "input_value (deselected j s) = input_value s"
    by (rule input_deselected) (use Cons.prems j in auto)
  moreover have "input_value (fold deselected js (deselected j s)) = input_value (deselected j s)"
    by (rule Cons.IH) (use Cons.prems j in \<open>auto simp: sel_set_deselected\<close>)
  ultimately show ?case by simp
qed

lemma input_selected_alone:
  assumes "i < length (items s)" and "selected (items s ! i)" and "\<not> multiple s"
  shows "input_value (selected_alone i s) = item_value (items s ! i)"
proof -
  let ?s2 = "onItemSelected i (s\<lparr>bulkSelectionChange := True\<rparr>)"
  let ?js = "filter (\<lambda>j. j \<noteq> i) (getAllSelected s)"
  let ?s3 = "(fold deselected ?js ?s2)\<lparr>bulkSelectionChange := False\<rparr>"
  have i2: "i \<in> sel_set ?s2" using assms by (simp add: sel_set_def)
  have "input_value (fold deselected ?js ?s2) = input_value ?s2"
    by (rule input_fold_deselected[where i = i]) (use i2 in \<open>auto simp: getAllSelected_set\<close>)
  moreover have "input_value ?s2 = item_value (items s ! i)"
    using onItemSelected_input[of i "s\<lparr>bulkSelectionChange := True\<rparr>"] assms by simp
  moreover have "any_selected ?s3"
    using selected_alone_core(3)[OF assms(1,2)] fold_deselected_facts[of ?js ?s2] assms
    by (auto simp: any_selected_def getAllSelected_set sel_set_def)
  ultimately show ?thesis
    by (simp add: selected_alone_def relabel_input)
qed

lemma input_written_set:
  assumes "i < length (items s)" and "\<not> multiple s"
  shows "input_value (written i Set_attribute s) = item_value (items s ! i)"
  using assms input_selected_alone[of i "mark i True s"]
  by (simp add: written_def handled_def)

subsection \<open>Entries and options of selected items\<close>

lemma keeps_views_refl [simp]: "keeps_views s s"
  by (simp add: keeps_views_def)

lemma keeps_views_trans: "keeps_views s t \<Longrightarrow> keeps_views t u \<Longrightarrow> keeps_views s u"
  by (simp add: keeps_views_def)

lemma keeps_views_items: "items s' = items s \<Longrightarrow> keeps_views s s'"
  by (simp add: keeps_views_def)

lemma keeps_views_mark [simp]: "keeps_views s (mark i b s)"
  by (simp add: keeps_views_def)

lemma keeps_views_onItemSelected [simp]: "keeps_views s (onItemSelected i s)"
  unfolding keeps_views_def
proof (intro conjI allI impI)
  fix k assume "k < length (items s)" "views (items s ! k) \<noteq> None"
  then show "views (items (onItemSelected i s) ! k) \<noteq> None"
    using helper_other2(1)[of k i s] helper_views2(1)[of i s] by (cases "k = i") auto
qed simp

lemma keeps_views_onItemDeselected [simp]: "keeps_views s (onItemDeselected i s)"
  unfolding keeps_views_def
proof (intro conjI allI impI)
  fix k assume "k < length (items s)" "views (items s ! k) \<noteq> None"
  then show "views (items (onItemDeselected i s) ! k) \<noteq> None"
    using helper_other2(2)[of k i s] helper_views2(2)[of i s] by (cases "k = i") auto
qed simp

lemma keeps_views_deselected [simp]: "keeps_views s (deselected j s)"
proof -
  let ?t = "(mark j False s)\<lparr>bulkSelectionChange := True\<rparr>"
  have "keeps_views s ?t" by (simp add: keeps_views_def)
  moreover have "keeps_views ?t (onItemDeselected j ?t)" by simp
  moreover have "keeps_views (onItemDeselected j ?t)
      (relabel ((onItemDeselected j ?t)\<lparr>bulkSelectionChange := False\<rparr>))"
    by (rule keeps_views_items) simp
  ultimately show ?thesis
    unfolding deselected_def mark_def by (meson keeps_views_trans)
qed

lemma keeps_views_fold_deselected [simp]: "keeps_views s (fold deselected js s)"
proof (induction js arbitrary: s)
  case Nil
  then show ?case by simp
next
  case (Cons j js)
  show ?case
    using keeps_views_trans[OF keeps_views_deselected[of s j] Cons.IH[of "deselected j s"]]
    by simp
qed

lemma keeps_views_selected_alone [simp]: "keeps_views s (selected_alone i s)"
proof -
  let ?s2 = "onItemSelected i (s\<lparr>bulkSelectionChange := True\<rparr>)"
  let ?js = "filter (\<lambda>j. j \<noteq> i) (getAllSelected s)"
  have "keeps_views s (s\<lparr>bulkSelectionChange := True\<rparr>)" by (simp add: keeps_views_def)
  moreover have "keeps_views (s\<lparr>bulkSelectionChange := True\<rparr>) ?s2" by simp
  moreover have "keeps_views ?s2 (fold deselected ?js ?s2)" by simp
  moreover have "keeps_views (fold deselected ?js ?s2) (selected_alone i s)"
    unfolding selected_alone_def by (rule keeps_views_items) simp
  ultimately show ?thesis by (meson keeps_views_trans)
qed


lemma keeps_views_auto_selected [simp]: "keeps_views s (auto_selected k s)"
proof -
  let ?t = "mark k True (s\<lparr>input_value := [], is_placeholder := False\<rparr>)"
  have "keeps_views s ?t" by (simp add: keeps_views_def)
  moreover have "keeps_views ?t (selected_alone k ?t)" by simp
  moreover have "keeps_views (selected_alone k ?t) (auto_selected k s)"
    unfolding auto_selected_def Let_def by (rule keeps_views_items) simp
  ultimately show ?thesis by (meson keeps_views_trans)
qed


lemma keeps_views_handled [simp]: "keeps_views s (handled i s)"
proof -
  let ?t = "s\<lparr>bulkSelectionChange := True\<rparr>"
  let ?s1 = "(onItemDeselected i ?t)\<lparr>bulkSelectionChange := False\<rparr>"
  have a: "keeps_views s (relabel ((onItemSelected i ?t)\<lparr>bulkSelectionChange := False\<rparr>))"
  proof -
    have "keeps_views s ?t" by (simp add: keeps_views_def)
    moreover have "keeps_views ?t (onItemSelected i ?t)" by simp
    moreover have "keeps_views (onItemSelected i ?t)
        (relabel ((onItemSelected i ?t)\<lparr>bulkSelectionChange := False\<rparr>))"
      by (rule keeps_views_items) simp
    ultimately show ?thesis by (meson keeps_views_trans)
  qed
  have s1: "keeps_views s ?s1"
  proof -
    have "keeps_views s ?t" by (simp add: keeps_views_def)
    moreover have "keeps_views ?t (onItemDeselected i ?t)" by simp
    moreover have "keeps_views (onItemDeselected i ?t) ?s1"
      by (rule keeps_views_items) simp
    ultimately show ?thesis by (meson keeps_views_trans)
  qed
  have b: "keeps_views s (relabel ?s1)"
    using keeps_views_trans[OF s1 keeps_views_items[of "relabel ?s1" ?s1]] by simp
  have c: "keeps_views s (auto_selected k ?s1)" for k
    using keeps_views_trans[OF s1 keeps_views_auto_selected] .
  show ?thesis
    using a b c by (simp add: handled_def Let_def split: option.splits)
qed

lemma keeps_views_written [simp]: "keeps_views s (written i wr s)"
proof -
  have "keeps_views s (handled i (mark i b s))" for b
    using keeps_views_trans[OF keeps_views_mark keeps_views_handled] .
  then show ?thesis by (simp add: written_def split: item_write.splits)
qed




subsection \<open>The trace of a write\<close>

lemma entry_only_refl [simp]: "entry_only s s"
  by (simp add: entry_only_def)

lemma entry_only_trans: "entry_only s t \<Longrightarrow> entry_only t u \<Longrightarrow> entry_only s u"
  unfolding entry_only_def
proof -
  assume "\<exists>es. trace t = trace s @ es \<and> (\<forall>e \<in> set es. flagged e)"
    and "\<exists>es. trace u = trace t @ es \<and> (\<forall>e \<in> set es. flagged e)"
  then obtain es es' where "trace t = trace s @ es" "\<forall>e \<in> set es. flagged e"
    "trace u = trace t @ es'" "\<forall>e \<in> set es'. flagged e" by blast
  then have "trace u = trace s @ (es @ es') \<and> (\<forall>e \<in> set (es @ es'). flagged e)" by auto
  then show "\<exists>es. trace u = trace s @ es \<and> (\<forall>e \<in> set es. flagged e)" by blast
qed

lemma entry_only_trace: "trace s' = trace s \<Longrightarrow> entry_only s s'"
  by (simp add: entry_only_def)

lemma entry_only_onItemSelected:
  "bulkSelectionChange s \<Longrightarrow> entry_only s (onItemSelected i s)"
  by (auto simp: entry_only_def helper_trace2 flagged_def)

lemma entry_only_onItemDeselected:
  "bulkSelectionChange s \<Longrightarrow> entry_only s (onItemDeselected i s)"
  by (auto simp: entry_only_def helper_trace2 flagged_def)

lemma entry_only_deselected [simp]: "entry_only s (deselected j s)"
proof -
  let ?t = "(mark j False s)\<lparr>bulkSelectionChange := True\<rparr>"
  have "entry_only s ?t" by (rule entry_only_trace) simp
  moreover have "entry_only ?t (onItemDeselected j ?t)"
    by (rule entry_only_onItemDeselected) simp
  moreover have "entry_only (onItemDeselected j ?t)
      (relabel ((onItemDeselected j ?t)\<lparr>bulkSelectionChange := False\<rparr>))"
    by (rule entry_only_trace) simp
  ultimately show ?thesis
    unfolding deselected_def mark_def by (meson entry_only_trans)
qed

lemma entry_only_fold_deselected [simp]: "entry_only s (fold deselected js s)"
proof (induction js arbitrary: s)
  case Nil
  then show ?case by simp
next
  case (Cons j js)
  show ?case
    using entry_only_trans[OF entry_only_deselected[of s j] Cons.IH[of "deselected j s"]]
    by simp
qed

lemma entry_only_selected_alone [simp]: "entry_only s (selected_alone i s)"
proof -
  let ?t = "s\<lparr>bulkSelectionChange := True\<rparr>"
  let ?s2 = "onItemSelected i ?t"
  let ?js = "filter (\<lambda>j. j \<noteq> i) (getAllSelected s)"
  have "entry_only s ?t" by (rule entry_only_trace) simp
  moreover have "entry_only ?t ?s2" by (rule entry_only_onItemSelected) simp
  moreover have "entry_only ?s2 (fold deselected ?js ?s2)" by simp
  moreover have "entry_only (fold deselected ?js ?s2) (selected_alone i s)"
    unfolding selected_alone_def by (rule entry_only_trace) simp
  ultimately show ?thesis by (meson entry_only_trans)
qed

lemma entry_only_auto_selected [simp]: "entry_only s (auto_selected k s)"
proof -
  let ?t = "mark k True (s\<lparr>input_value := [], is_placeholder := False\<rparr>)"
  have "entry_only s ?t" by (rule entry_only_trace) simp
  moreover have "entry_only ?t (selected_alone k ?t)" by simp
  moreover have "entry_only (selected_alone k ?t) (auto_selected k s)"
    unfolding auto_selected_def Let_def by (rule entry_only_trace) simp
  ultimately show ?thesis by (meson entry_only_trans)
qed

lemma entry_only_handled [simp]: "entry_only s (handled i s)"
proof -
  let ?t = "s\<lparr>bulkSelectionChange := True\<rparr>"
  let ?s1 = "(onItemDeselected i ?t)\<lparr>bulkSelectionChange := False\<rparr>"
  have t: "entry_only s ?t" by (rule entry_only_trace) simp
  have a: "entry_only s (relabel ((onItemSelected i ?t)\<lparr>bulkSelectionChange := False\<rparr>))"
  proof -
    have "entry_only ?t (onItemSelected i ?t)" by (rule entry_only_onItemSelected) simp
    moreover have "entry_only (onItemSelected i ?t)
        (relabel ((onItemSelected i ?t)\<lparr>bulkSelectionChange := False\<rparr>))"
      by (rule entry_only_trace) simp
    ultimately show ?thesis using t by (meson entry_only_trans)
  qed
  have s1: "entry_only s ?s1"
  proof -
    have "entry_only ?t (onItemDeselected i ?t)" by (rule entry_only_onItemDeselected) simp
    moreover have "entry_only (onItemDeselected i ?t) ?s1" by (rule entry_only_trace) simp
    ultimately show ?thesis using t by (meson entry_only_trans)
  qed
  have b: "entry_only s (relabel ?s1)"
    using entry_only_trans[OF s1 entry_only_trace[of "relabel ?s1" ?s1]] by simp
  have c: "entry_only s (auto_selected k ?s1)" for k
    using entry_only_trans[OF s1 entry_only_auto_selected] .
  show ?thesis
    using a b c by (simp add: handled_def Let_def split: option.splits)
qed

lemma entry_only_written [simp]: "entry_only s (written i wr s)"
proof -
  have "entry_only s (handled i (mark i b s))" for b
    using entry_only_trans[OF entry_only_trace[of "mark i b s" s] entry_only_handled] by simp
  then show ?thesis by (simp add: written_def split: item_write.splits)
qed



lemma sync_closed:
  "syncSelectedItemPlaceholder (set_item_selected (Suc n)) s =
     Inr (if auto_needed s then auto_selected (the (getFirstSelectable s)) s else relabel s)"
proof (cases "auto_needed s")
  case True
  then obtain k where k: "getFirstSelectable s = Some k" by (auto simp: auto_needed_def)
  have "syncSelectedItemPlaceholder (set_item_selected (Suc n)) s = Inr (auto_selected k s)"
  proof (rule sync_auto[OF True k])
    show "\<And>s'. k < length (items s') \<Longrightarrow> \<not> multiple s' \<Longrightarrow> \<not> any_selected s' \<Longrightarrow>
         set_item_selected (Suc n) s' k Set_attribute = Inr (selected_alone k (mark k True s'))"
      by (rule write_set_single_first)
  qed
  with True k show ?thesis by simp
next
  case False
  then show ?thesis by (simp add: sync_relabel)
qed

lemma label_relabel:
  "label (relabel s) =
     (if placeholder s \<noteq> [] \<and> (multiple s \<or> selectedItem s = None) then placeholder s
      else if multiple s then i18n_get ''Select''
      else (case selectedItem s of None \<Rightarrow> [] | Some k \<Rightarrow> content (items s ! k)))"
  by (simp add: relabel_def split: option.splits)

lemma label_auto_selected:
  "k < length (items s) \<Longrightarrow> label (auto_selected k s) = content (items s ! k)"
proof -
  assume k: "k < length (items s)"
  let ?t = "mark k True (s\<lparr>input_value := [], is_placeholder := False\<rparr>)"
  have "fixed (selected_alone k ?t) = fixed s" by simp
  from fixedD(7)[OF this k] show ?thesis
    by (simp add: auto_selected_def Let_def)
qed

subsection \<open>Invariants of the operations\<close>

text \<open>
  Every operation is a composition of item writes and of updates of fields outside the
  items, so a predicate preserved by both is preserved by every operation, and every
  operation returns a state.
\<close>

lemma closed_invD:
  assumes "closed_inv P"
  shows "P s \<Longrightarrow> P (written i wr s)"
    and "P s \<Longrightarrow> items s' = items s \<Longrightarrow> multiple s' = multiple s \<Longrightarrow>
          placeholder s' = placeholder s \<Longrightarrow> initialValues s' = initialValues s \<Longrightarrow> P s'"
  using assms unfolding closed_inv_def by blast+

lemma each_inv:
  assumes "\<And>x s. x \<in> set xs \<Longrightarrow> P s \<Longrightarrow> \<exists>s'. f x s = Inr s' \<and> P s'" and "P s"
  shows "\<exists>s'. each f xs s = Inr s' \<and> P s'"
  using assms
proof (induction xs arbitrary: s)
  case Nil
  then show ?case by simp
next
  case (Cons x xs)
  from Cons.prems(1)[of x s] Cons.prems(2) obtain s1 where s1: "f x s = Inr s1" "P s1"
    by auto
  have "\<exists>s'. each f xs s1 = Inr s' \<and> P s'"
    by (rule Cons.IH) (use Cons.prems(1) s1 in auto)
  with s1 show ?case by simp
qed

lemma inv_write:
  assumes "closed_inv P" and "P s"
  shows "\<exists>s'. set_item_selected (Suc (Suc n)) s i wr = Inr s' \<and> P s'"
  using assms closed_invD(1)[OF assms(1)] by (simp add: writer_closed)



lemma inv_each_write:
  assumes c: "closed_inv P" and p: "P s"
  shows "\<exists>s'. each (\<lambda>j s'. set_item_selected (Suc (Suc n)) s' (g j) (h j s')) js s = Inr s' \<and> P s'"
  by (rule each_inv[where P = P]) (use inv_write[OF c] p in auto)





lemma inv_trigger:
  assumes c: "closed_inv P" and p: "P s"
  shows "P (trigger e s)" "P (s\<lparr>bulkSelectionChange := b\<rparr>)" "P (hideOptions s)"
    "P (s\<lparr>overlay_open := ov\<rparr>)"
  by (rule closed_invD(2)[OF c p]; simp add: hideOptions_def)+


lemma inv_onTagListChange:
  assumes c: "closed_inv P" and p: "P s"
  shows "\<exists>s'. onTagListChange (set_item_selected (Suc (Suc n))) vals s = Inr s' \<and> P s'"
proof -
  let ?s1 = "s\<lparr>bulkSelectionChange := True\<rparr>"
  have p1: "P ?s1" by (rule inv_trigger(2)[OF c p])
  from inv_each_write[OF c p1, where n = n and g = "\<lambda>j. j"
      and h = "\<lambda>i s'. if item_value (items s' ! i) \<in> set vals then Set_attribute else Remove_attribute"
      and js = "getAllSelected ?s1"]
  obtain s2 where s2: "each (\<lambda>i s'. set_item_selected (Suc (Suc n)) s' i
        (if item_value (items s' ! i) \<in> set vals then Set_attribute else Remove_attribute))
        (getAllSelected ?s1) ?s1 = Inr s2" "P s2"
    by blast
  let ?s3 = "s2\<lparr>bulkSelectionChange := False\<rparr>"
  have s3: "P ?s3" by (rule inv_trigger(2)[OF c s2(2)])
  have s4: "P (trigger Focus_button ?s3)" by (rule inv_trigger(1)[OF c s3])
  have "P (trigger Trigger_change ?s3)" "P (trigger Trigger_change (trigger Focus_button ?s3))"
    by (rule inv_trigger(1)[OF c s3], rule inv_trigger(1)[OF c s4])
  with p s2 show ?thesis
    by (simp add: onTagListChange_def Let_def)
qed






lemma sel_set_items: "items s' = items s \<Longrightarrow> sel_set s' = sel_set s"
  by (simp add: sel_set_def)







subsection \<open>The writes of a pass\<close>

lemma pass_writes_append [simp]: "pass_writes (a @ b) = pass_writes a @ pass_writes b"
  by (simp add: pass_writes_def)

lemma pass_writes_simps [simp]:
  "pass_writes [] = []"
  "pass_writes (Pass_write l b f # es) = (l, b) # pass_writes es"
  "pass_writes (Entry_write k b f # es) = pass_writes es"
  "pass_writes (Trigger_change # es) = pass_writes es"
  "pass_writes (Trigger_hideitems # es) = pass_writes es"
  "pass_writes (Focus_button # es) = pass_writes es"
  by (simp_all add: pass_writes_def)

lemma pass_writes_flagged: "\<forall>e \<in> set es. flagged e \<Longrightarrow> pass_writes es = []"
  by (induction es) (auto simp: pass_writes_def flagged_def)

lemma pass_writes_written [simp]:
  "pass_writes (trace (written i wr s)) = pass_writes (trace s)"
proof -
  have "entry_only s (written i wr s)" by simp
  then obtain es where "trace (written i wr s) = trace s @ es" "\<forall>e \<in> set es. flagged e"
    unfolding entry_only_def by blast
  then show ?thesis by (simp add: pass_writes_flagged)
qed





subsection \<open>Assigning and reading values\<close>

lemma values_single_step:
  "values_single (set_item_selected (Suc (Suc n))) v (i # js) t s =
     (if t = None \<and> item_value (items s ! i) = v
      then values_single (set_item_selected (Suc (Suc n))) v js (Some i) (written i Set_attribute s)
      else values_single (set_item_selected (Suc (Suc n))) v js t (written i Remove_attribute s))"
  by (simp add: writer_closed)

lemma values_single_rest:
  assumes "sel_set s = {k}" and "k \<notin> set js"
  shows "values_single (set_item_selected (Suc (Suc n))) v js (Some k) s = Inr (s, Some k)"
  using assms
proof (induction js)
  case Nil
  then show ?case by simp
next
  case (Cons j js)
  then have "written j Remove_attribute s = s"
    by (simp add: written_remove_unselected)
  with Cons show ?case by (simp add: values_single_step del: values_single.simps)
qed

lemma values_single_match:
  assumes "distinct js" and "\<forall>j \<in> set js. j < length (items s)" and "\<not> multiple s"
    and "\<exists>j \<in> set js. item_value (items s ! j) = v"
  shows "\<exists>s' k. values_single (set_item_selected (Suc (Suc n))) v js None s = Inr (s', Some k)
           \<and> sel_set s' = {k} \<and> input_value s' = v \<and> \<not> multiple s'"
  using assms
proof (induction js arbitrary: s)
  case Nil
  then show ?case by simp
next
  case (Cons j js)
  have jl: "j < length (items s)" using Cons.prems by simp
  show ?case
  proof (cases "item_value (items s ! j) = v")
    case True
    let ?s1 = "written j Set_attribute s"
    have s1: "sel_set ?s1 = {j}" "input_value ?s1 = v" "\<not> multiple ?s1"
      using jl Cons.prems(3) True
      by (simp_all add: sel_set_written next_sel_def input_written_set)
    have "values_single (set_item_selected (Suc (Suc n))) v js (Some j) ?s1 = Inr (?s1, Some j)"
      by (rule values_single_rest) (use s1 Cons.prems(1) in auto)
    with True s1 show ?thesis by (simp add: values_single_step del: values_single.simps)
  next
    case False
    let ?s1 = "written j Remove_attribute s"
    have "\<exists>s' k. values_single (set_item_selected (Suc (Suc n))) v js None ?s1 = Inr (s', Some k)
           \<and> sel_set s' = {k} \<and> input_value s' = v \<and> \<not> multiple s'"
    proof (rule Cons.IH)
      show "distinct js" using Cons.prems by simp
      show "\<forall>j \<in> set js. j < length (items ?s1)" using Cons.prems by simp
      show "\<not> multiple ?s1" using Cons.prems by simp
      show "\<exists>j \<in> set js. item_value (items ?s1 ! j) = v"
        using Cons.prems False by auto
    qed
    with False show ?thesis by (simp add: values_single_step del: values_single.simps)
  qed
qed

lemma getAll_simps [simp]: "set (getAll s) = {k. k < length (items s)}" "distinct (getAll s)"
  by (auto simp: getAll_def)

lemma selectedItem_singleton:
  assumes "sel_set s = {k}"
  shows "selectedItem s = Some k"
proof -
  have "k < length (items s)" "\<forall>j < length (items s). selected (items s ! j) = (j = k)"
    using assms by (auto simp: sel_set_def)
  then show ?thesis by (rule selectedItem_single)
qed

lemma values_set_match:
  assumes "\<not> multiple s" and "\<exists>j < length (items s). item_value (items s ! j) = v"
  shows "\<exists>s'. values_set (set_item_selected (Suc (Suc n))) [v] s = Inr s' \<and> values_get s' = [v]"
proof -
  from values_single_match[of "getAll s" s v n] assms obtain s' k where
    r: "values_single (set_item_selected (Suc (Suc n))) v (getAll s) None s = Inr (s', Some k)"
      "sel_set s' = {k}" "input_value s' = v" "\<not> multiple s'"
    by auto
  have "values_get s' = [v]"
    using r selectedItem_singleton[OF r(2)] by (simp add: values_get_def)
  with r assms show ?thesis by (simp add: values_set_def)
qed

lemma fallback_fixed: "fixed s' = fixed s \<Longrightarrow> fallback s' = fallback s"
  using fixed_getFirstSelectable[of s' s] fixedD(3)[of s' s] by (simp add: fallback_def)

lemma sel_set_remove_fallback:
  assumes "\<not> multiple s" and "sel_set s \<subseteq> fallback s \<union> insert j A"
  shows "sel_set (written j Remove_attribute s) \<subseteq> fallback s \<union> A"
proof (cases "j \<in> sel_set s")
  case True
  then have jl: "j < length (items s)" by (simp add: sel_set_def)
  show ?thesis
    using True assms
    by (auto simp: sel_set_written[OF jl] next_sel_def Let_def fallback_def
          split: option.splits if_splits)
next
  case False
  with assms show ?thesis by (auto simp: written_remove_unselected)
qed

lemma values_single_nomatch:
  assumes "\<not> multiple s" and "\<forall>j \<in> set js. j < length (items s) \<and> item_value (items s ! j) \<noteq> v"
    and "sel_set s \<subseteq> fallback s \<union> set js"
  shows "\<exists>s'. values_single (set_item_selected (Suc (Suc n))) v js None s = Inr (s', None)
           \<and> sel_set s' \<subseteq> fallback s \<and> fixed s' = fixed s"
  using assms
proof (induction js arbitrary: s)
  case Nil
  then show ?case by simp
next
  case (Cons j js)
  let ?s1 = "written j Remove_attribute s"
  have f1: "fallback ?s1 = fallback s" by (rule fallback_fixed) simp
  have "\<exists>s'. values_single (set_item_selected (Suc (Suc n))) v js None ?s1 = Inr (s', None)
           \<and> sel_set s' \<subseteq> fallback ?s1 \<and> fixed s' = fixed ?s1"
  proof (rule Cons.IH)
    show "\<not> multiple ?s1" using Cons.prems by simp
    show "\<forall>j \<in> set js. j < length (items ?s1) \<and> item_value (items ?s1 ! j) \<noteq> v"
      using Cons.prems by simp
    show "sel_set ?s1 \<subseteq> fallback ?s1 \<union> set js"
      unfolding f1 by (rule sel_set_remove_fallback) (use Cons.prems in auto)
  qed
  with Cons.prems f1 show ?case
    by (simp add: values_single_step del: values_single.simps)
qed

lemma distinct_singleton: "distinct xs \<Longrightarrow> set xs = {a} \<Longrightarrow> xs = [a]"
  by (cases xs; cases "tl xs") auto

lemma getAllSelected_sel_set: "set (getAllSelected s) = sel_set s"
  by (simp add: getAllSelected_set sel_set_def)

lemma values_get_relabel:
  "\<not> multiple t \<Longrightarrow> sel_set t \<noteq> {} \<Longrightarrow> values_get (relabel t) = [input_value t]"
  "\<not> multiple t \<Longrightarrow> sel_set t = {} \<Longrightarrow> values_get (relabel t) = []"
proof -
  have c: "selectedItem (relabel t) = selectedItem t" by (rule core_selectedItem) simp
  show "\<not> multiple t \<Longrightarrow> sel_set t \<noteq> {} \<Longrightarrow> values_get (relabel t) = [input_value t]"
    using selectedItem_None[of t]
    by (auto simp: values_get_def c any_selected_sel_set relabel_input split: option.splits)
  show "\<not> multiple t \<Longrightarrow> sel_set t = {} \<Longrightarrow> values_get (relabel t) = []"
    using selectedItem_None[of t]
    by (auto simp: values_get_def c any_selected_sel_set split: option.splits)
qed

lemma setStateFromDOM_fallback:
  assumes m: "\<not> multiple s" and sub: "sel_set s \<subseteq> fallback s"
  shows "\<exists>s'. setStateFromDOM (set_item_selected (Suc (Suc n))) s = Inr s'
     \<and> values_get s' =
         (if placeholder s = []
          then (case getFirstSelectable s of Some f \<Rightarrow> [item_value (items s ! f)] | None \<Rightarrow> [])
          else [])"
proof -
  let ?w = "set_item_selected (Suc (Suc n))"
  have sync: "syncSelectedItemPlaceholder ?w t = Inr (relabel t)" if "\<not> auto_needed t" for t
    using that by (rule sync_relabel)
  show ?thesis
  proof (cases "sel_set s = {}")
    case True
    then have g: "getAllSelected s = []"
      using getAllSelected_sel_set[of s] by simp
    let ?s2 = "s\<lparr>input_value := []\<rparr>"
    show ?thesis
    proof (cases "placeholder s = [] \<and> getFirstSelectable s \<noteq> None")
      case a: True
      then obtain f where f: "getFirstSelectable s = Some f" by auto
      have fl: "f < length (items s)" by (rule getFirstSelectable_less[OF f])
      let ?s3 = "written f Set_attribute ?s2"
      let ?s4 = "?s3\<lparr>input_value := item_value (items ?s3 ! f)\<rparr>"
      have s3: "sel_set ?s3 = {f}"
        using m fl by (simp add: sel_set_written next_sel_def)
      then have na: "\<not> auto_needed ?s4" by (simp add: auto_needed_iff)
      have "values_get (relabel ?s4) = [item_value (items s ! f)]"
        using values_get_relabel(1)[of ?s4] s3 m fl by simp
      moreover have "getFirstSelectable ?s2 = Some f"
        using f by (simp add: getFirstSelectable_def getAll_def)
      ultimately show ?thesis
        using m g a f sync[OF na]
        by (simp add: setStateFromDOM_def deselectAllExceptLast_def getFirstSelected_def
              writer_closed updateLabel_def Let_def)
    next
      case a: False
      have na: "\<not> auto_needed ?s2"
        using a by (auto simp: auto_needed_def getFirstSelectable_def getAll_def)
      have "values_get (relabel ?s2) = []"
        using values_get_relabel(2)[of ?s2] True m by simp
      moreover have "getFirstSelectable ?s2 = getFirstSelectable s"
        by (simp add: getFirstSelectable_def getAll_def)
      ultimately show ?thesis
        using m g a sync[OF na]
        by (auto simp: setStateFromDOM_def deselectAllExceptLast_def getFirstSelected_def
              updateLabel_def Let_def split: option.splits)
    qed
  next
    case False
    with sub obtain f where f: "placeholder s = []" "getFirstSelectable s = Some f" "sel_set s = {f}"
      by (auto simp: fallback_def split: if_splits option.splits)
    have g: "getAllSelected s = [f]"
      by (rule distinct_singleton) (simp_all add: getAllSelected_distinct getAllSelected_sel_set f)
    let ?s4 = "s\<lparr>input_value := item_value (items s ! f)\<rparr>"
    have na: "\<not> auto_needed ?s4" using f by (simp add: auto_needed_iff)
    have "values_get (relabel ?s4) = [item_value (items s ! f)]"
      using values_get_relabel(1)[of ?s4] f m by simp
    then show ?thesis
      using m g f sync[OF na]
      by (simp add: setStateFromDOM_def deselectAllExceptLast_def getFirstSelected_def
            updateLabel_def Let_def)
  qed
qed

lemma values_set_nomatch:
  assumes "\<not> multiple s" and "\<forall>j < length (items s). item_value (items s ! j) \<noteq> v"
  shows "\<exists>s'. values_set (set_item_selected (Suc (Suc n))) [v] s = Inr s'
     \<and> values_get s' =
         (if placeholder s = []
          then (case getFirstSelectable s of Some f \<Rightarrow> [item_value (items s ! f)] | None \<Rightarrow> [])
          else [])"
proof -
  have "sel_set s \<subseteq> fallback s \<union> set (getAll s)" by (auto simp: sel_set_def)
  from values_single_nomatch[of s "getAll s" v n] assms this obtain s' where
    r: "values_single (set_item_selected (Suc (Suc n))) v (getAll s) None s = Inr (s', None)"
      "sel_set s' \<subseteq> fallback s" "fixed s' = fixed s"
    by auto
  have m': "\<not> multiple s'" using fixedD(2)[OF r(3)] assms(1) by simp
  have sub: "sel_set s' \<subseteq> fallback s'" using r(2) fallback_fixed[OF r(3)] by simp
  from setStateFromDOM_fallback[OF m' sub, of n] obtain s'' where
    "setStateFromDOM (set_item_selected (Suc (Suc n))) s' = Inr s''"
    "values_get s'' =
         (if placeholder s' = []
          then (case getFirstSelectable s' of Some f \<Rightarrow> [item_value (items s' ! f)] | None \<Rightarrow> [])
          else [])"
    by blast
  moreover have "getFirstSelectable s' = getFirstSelectable s"
    by (rule fixed_getFirstSelectable[OF r(3)])
  moreover have "item_value (items s' ! f) = item_value (items s ! f)"
    if "getFirstSelectable s = Some f" for f
    using fixedD(6)[OF r(3) getFirstSelectable_less[OF that]] .
  ultimately show ?thesis
    using r(1) assms(1) fixedD(3)[OF r(3)]
    by (auto simp: values_set_def split: option.splits)
qed

lemma tags_onItemSelected:
  assumes "multiple s" and "i < length (items s)"
  shows "taglist (onItemSelected i s) = filter (\<lambda>j. j \<noteq> i) (taglist s) @ [i]"
    and "tag (items (onItemSelected i s) ! i)"
    and "k \<noteq> i \<Longrightarrow> tag (items (onItemSelected i s) ! k) = tag (items s ! k)"
  using assms
  by (auto simp: onItemSelected_def onItemAdded_def write_views_def set_hidden_def
        addTagToTagList_def update_item_def trigger_def Let_def)

lemma tags_onItemDeselected:
  assumes "multiple s" and "i < length (items s)" and "\<not> selected (items s ! i)"
  shows "taglist (onItemDeselected i s) =
           (if tag (items s ! i) then filter (\<lambda>j. j \<noteq> i) (taglist s) else taglist s)"
    and "tag (items (onItemDeselected i s) ! k) = tag (items s ! k)"
  using assms
  by (auto simp: onItemDeselected_def onItemAdded_def write_views_def set_hidden_def
        removeTagFromTagList_def update_item_def trigger_def Let_def nth_list_update)

lemma written_multiple:
  assumes "multiple s" and "i < length (items s)"
  shows "written i Set_attribute s =
           relabel ((onItemSelected i ((mark i True s)\<lparr>bulkSelectionChange := True\<rparr>))
                    \<lparr>bulkSelectionChange := False\<rparr>)"
    and "selected (items s ! i) \<Longrightarrow> written i Remove_attribute s =
           relabel ((onItemDeselected i ((mark i False s)\<lparr>bulkSelectionChange := True\<rparr>))
                    \<lparr>bulkSelectionChange := False\<rparr>)"
proof -
  show "written i Set_attribute s =
           relabel ((onItemSelected i ((mark i True s)\<lparr>bulkSelectionChange := True\<rparr>))
                    \<lparr>bulkSelectionChange := False\<rparr>)"
    using assms by (simp add: written_def handled_def)
  let ?s1 = "(onItemDeselected i ((mark i False s)\<lparr>bulkSelectionChange := True\<rparr>))
               \<lparr>bulkSelectionChange := False\<rparr>"
  have "\<not> auto_needed ?s1" using assms by (simp add: auto_needed_def)
  then show "selected (items s ! i) \<Longrightarrow> written i Remove_attribute s = relabel ?s1"
    using assms by (simp add: written_def handled_def Let_def)
qed

lemma tags_written_set:
  assumes m: "multiple s" and i: "i < length (items s)" and t: "tags_consistent s"
  shows "tags_consistent (written i Set_attribute s)"
    and "set (taglist (written i Set_attribute s)) = insert i (set (taglist s))"
proof -
  let ?t = "(mark i True s)\<lparr>bulkSelectionChange := True\<rparr>"
  have w: "written i Set_attribute s = relabel ((onItemSelected i ?t)\<lparr>bulkSelectionChange := False\<rparr>)"
    by (rule written_multiple(1)[OF m i])
  have mt: "multiple ?t" "i < length (items ?t)" using m i by simp_all
  note os = tags_onItemSelected[OF mt]
  have tl: "taglist (written i Set_attribute s) = filter (\<lambda>j. j \<noteq> i) (taglist s) @ [i]"
    unfolding w using os(1) by simp
  have tg: "tag (items (written i Set_attribute s) ! k) = (k = i \<or> tag (items s ! k))"
    if "k < length (items s)" for k
    unfolding w using os(2) os(3)[of k] that i by (cases "k = i") simp_all
  have ss: "sel_set (written i Set_attribute s) = insert i (sel_set s)"
    using m by (simp add: sel_set_written[OF i] next_sel_def)
  show "set (taglist (written i Set_attribute s)) = insert i (set (taglist s))"
    unfolding tl by auto
  show "tags_consistent (written i Set_attribute s)"
    unfolding tags_consistent_def tl ss
    using t tg i by (auto simp: tags_consistent_def sel_set_def)
qed

lemma tags_written_remove:
  assumes m: "multiple s" and i: "i < length (items s)" and t: "tags_consistent s"
  shows "tags_consistent (written i Remove_attribute s)"
    and "set (taglist (written i Remove_attribute s)) = set (taglist s) - {i}"
proof -
  have "tags_consistent (written i Remove_attribute s)
      \<and> set (taglist (written i Remove_attribute s)) = set (taglist s) - {i}"
  proof (cases "selected (items s ! i)")
    case True
    let ?t = "(mark i False s)\<lparr>bulkSelectionChange := True\<rparr>"
    have w: "written i Remove_attribute s
             = relabel ((onItemDeselected i ?t)\<lparr>bulkSelectionChange := False\<rparr>)"
      by (rule written_multiple(2)[OF m i True])
    have mt: "multiple ?t" "i < length (items ?t)" "\<not> selected (items ?t ! i)"
      using m i by simp_all
    note od = tags_onItemDeselected[OF mt]
    have ti: "\<not> tag (items s ! i) \<Longrightarrow> i \<notin> set (taglist s)"
      using t by (auto simp: tags_consistent_def)
    have fi: "i \<notin> set (taglist s) \<Longrightarrow> filter (\<lambda>j. j \<noteq> i) (taglist s) = taglist s"
      by (rule filter_True) auto
    have tl: "taglist (written i Remove_attribute s) = filter (\<lambda>j. j \<noteq> i) (taglist s)"
      unfolding w using od(1) i ti fi by auto
    have tg: "tag (items (written i Remove_attribute s) ! k) = tag (items s ! k)"
      if "k < length (items s)" for k
      unfolding w using od(2)[of k] that i by simp
    have "i \<in> sel_set s" using True i by (simp add: sel_set_def)
    then have ss: "sel_set (written i Remove_attribute s) = sel_set s - {i}"
      using m by (simp add: sel_set_written[OF i] next_sel_def Let_def)
    show ?thesis
      unfolding tags_consistent_def tl ss
      using t tg by (auto simp: tags_consistent_def sel_set_def)
  next
    case False
    then have "written i Remove_attribute s = s" "i \<notin> set (taglist s)"
      using t by (auto simp: written_def tags_consistent_def sel_set_def)
    with t show ?thesis by simp
  qed
  then show "tags_consistent (written i Remove_attribute s)"
    and "set (taglist (written i Remove_attribute s)) = set (taglist s) - {i}"
    by simp_all
qed

lemma values_multi_loop:
  assumes "multiple s" and "tags_consistent s" and "distinct js"
    and "\<forall>j \<in> set js. j < length (items s)"
  shows "\<exists>s'. each (\<lambda>i s'. set_item_selected (Suc (Suc n)) s' i
                  (if item_value (items s' ! i) \<in> V then Set_attribute else Remove_attribute))
           js s = Inr s'
      \<and> tags_consistent s' \<and> fixed s' = fixed s
      \<and> set (taglist s') =
            (set (taglist s) - set js) \<union> {j \<in> set js. item_value (items s ! j) \<in> V}"
  using assms
proof (induction js arbitrary: s)
  case Nil
  then show ?case by simp
next
  case (Cons j js)
  let ?wr = "if item_value (items s ! j) \<in> V then Set_attribute else Remove_attribute"
  let ?s1 = "written j ?wr s"
  have jl: "j < length (items s)" using Cons.prems by simp
  have t1: "tags_consistent ?s1"
    using tags_written_set(1)[OF Cons.prems(1) jl Cons.prems(2)]
      tags_written_remove(1)[OF Cons.prems(1) jl Cons.prems(2)] by simp
  have tl1: "set (taglist ?s1) =
      (if item_value (items s ! j) \<in> V then insert j (set (taglist s)) else set (taglist s) - {j})"
    using tags_written_set(2)[OF Cons.prems(1) jl Cons.prems(2)]
      tags_written_remove(2)[OF Cons.prems(1) jl Cons.prems(2)] by simp
  have "\<exists>s'. each (\<lambda>i s'. set_item_selected (Suc (Suc n)) s' i
                  (if item_value (items s' ! i) \<in> V then Set_attribute else Remove_attribute))
           js ?s1 = Inr s'
      \<and> tags_consistent s' \<and> fixed s' = fixed ?s1
      \<and> set (taglist s') =
            (set (taglist ?s1) - set js) \<union> {j \<in> set js. item_value (items ?s1 ! j) \<in> V}"
    by (rule Cons.IH) (use Cons.prems t1 in simp_all)
  then obtain s' where s':
    "each (\<lambda>i s'. set_item_selected (Suc (Suc n)) s' i
                  (if item_value (items s' ! i) \<in> V then Set_attribute else Remove_attribute))
           js ?s1 = Inr s'"
    "tags_consistent s'" "fixed s' = fixed ?s1"
    "set (taglist s') =
            (set (taglist ?s1) - set js) \<union> {j \<in> set js. item_value (items ?s1 ! j) \<in> V}"
    by blast
  have iv: "{k \<in> set js. item_value (items ?s1 ! k) \<in> V} = {k \<in> set js. item_value (items s ! k) \<in> V}"
    using Cons.prems by auto
  have "set (taglist s') =
      (set (taglist s) - set (j # js)) \<union> {k \<in> set (j # js). item_value (items s ! k) \<in> V}"
    unfolding s'(4) iv tl1 using Cons.prems(3) by auto
  with s' show ?case
    by (simp add: writer_closed)
qed

lemma values_set_multiple:
  assumes "multiple s" and "tags_consistent s"
  shows "\<exists>s'. values_set (set_item_selected (Suc (Suc n))) [v] s = Inr s'
     \<and> values_get s' =
          replicate (length (filter (\<lambda>i. item_value (items s ! i) = v) (getAll s))) v"
proof -
  from values_multi_loop[OF assms, of "getAll s" n "{v}"] obtain s' where s':
    "each (\<lambda>i s'. set_item_selected (Suc (Suc n)) s' i
                  (if item_value (items s' ! i) \<in> {v} then Set_attribute else Remove_attribute))
           (getAll s) s = Inr s'"
    "tags_consistent s'" "fixed s' = fixed s"
    "set (taglist s') =
       (set (taglist s) - set (getAll s)) \<union> {j \<in> set (getAll s). item_value (items s ! j) \<in> {v}}"
    by auto
  have sub: "set (taglist s) \<subseteq> set (getAll s)"
    using assms(2) by (auto simp: tags_consistent_def sel_set_def)
  let ?M = "filter (\<lambda>i. item_value (items s ! i) = v) (getAll s)"
  have st: "set (taglist s') = set ?M"
    using s'(4) sub by auto
  have "distinct (taglist s')" using s'(2) by (simp add: tags_consistent_def)
  then have len: "length (taglist s') = length ?M"
    using st distinct_card[of "taglist s'"] distinct_card[of ?M] by simp
  have "map (\<lambda>i. item_value (items s' ! i)) (taglist s') = map (\<lambda>i. v) (taglist s')"
  proof (rule map_cong[OF refl])
    fix k assume "k \<in> set (taglist s')"
    then have "k < length (items s)" "item_value (items s ! k) = v"
      using st by auto
    then show "item_value (items s' ! k) = v"
      using fixedD(6)[OF s'(3)] by simp
  qed
  then have "taglist_values s' = replicate (length ?M) v"
    by (simp add: taglist_values_def map_replicate_const len)
  moreover have "multiple s'" using fixedD(2)[OF s'(3)] assms(1) by simp
  ultimately show ?thesis
    using s'(1) assms(1) by (simp add: values_set_def values_get_def)
qed

subsection \<open>The snapshot of the initial values\<close>






lemma helper_initialValues [simp]:
  "initialValues (onItemRemoved i s) = initialValues s"
  "initialValues (onItemAdded i s) = initialValues s"
  by (simp_all add: onItemRemoved_def removeTagFromTagList_def onItemAdded_def addTagToTagList_def
        update_item_def Let_def)




subsection \<open>Executable forms of the predicates\<close>



section \<open>Properties of the Select\<close>

text \<open>
  In what follows the item writes are handled by \<open>set_item_selected (Suc (Suc n))\<close>:
  every bound of at least two on the nesting of attribute reactions. With such a bound
  no run below ends in \<open>Out_of_fuel\<close>.
\<close>



text \<open>
  C2 (as amended). Assigning \<^verbatim>\<open>values = [v]\<close> and reading \<^verbatim>\<open>values\<close>: in single selection
  the result is \<^verbatim>\<open>[v]\<close> when some item has the value \<open>v\<close>; when none has, it is the value
  of the first selectable item when there is no placeholder and such an item exists, and
  empty otherwise. In multiple selection, with a tag list that holds the tags of selected
  items only, the result has \<open>v\<close> once for every item whose value is \<open>v\<close>: it is \<^verbatim>\<open>[v]\<close>
  when exactly one item has the value, and empty when none has.
\<close>

theorem values_round_trip:
  "(\<not> multiple s \<longrightarrow>
      ((\<exists>j < length (items s). item_value (items s ! j) = v) \<longrightarrow>
         (\<exists>s'. values_set (set_item_selected (Suc (Suc n))) [v] s = Inr s' \<and> values_get s' = [v]))
    \<and> ((\<forall>j < length (items s). item_value (items s ! j) \<noteq> v) \<longrightarrow>
         (\<exists>s'. values_set (set_item_selected (Suc (Suc n))) [v] s = Inr s'
            \<and> values_get s' =
                (if placeholder s = []
                 then (case getFirstSelectable s of
                         Some f \<Rightarrow> [item_value (items s ! f)]
                       | None \<Rightarrow> [])
                 else []))))
   \<and> (multiple s \<longrightarrow> tags_consistent s \<longrightarrow>
        (\<exists>s'. values_set (set_item_selected (Suc (Suc n))) [v] s = Inr s'
           \<and> values_get s' =
               replicate (length (filter (\<lambda>i. item_value (items s ! i) = v) (getAll s))) v))"
  using values_set_match[of s v n] values_set_nomatch[of s v n] values_set_multiple[of s n v]
  by blast

theorem values_round_trip_witness:
  "(\<exists>s'. values_set (set_item_selected (Suc (Suc 0))) [''B''] three_items = Inr s'
       \<and> values_get s' = [''B''])
   \<and> (\<exists>s'. values_set (set_item_selected (Suc (Suc 0))) [''Z''] three_items = Inr s'
       \<and> values_get s' = [''A''])"
proof -
  have h: "\<not> multiple three_items" "length (items three_items) = 3"
    "item_value (items three_items ! 1) = ''B''" "placeholder three_items = []"
    "getFirstSelectable three_items = Some 0" "item_value (items three_items ! 0) = ''A''"
    by code_simp+
  have z: "\<forall>j < length (items three_items). item_value (items three_items ! j) \<noteq> ''Z''"
    unfolding h(2) by (simp add: three_items_def example_select_def example_item_def
          less_Suc_eq numeral_3_eq_3)
  have b: "\<exists>j < length (items three_items). item_value (items three_items ! j) = ''B''"
    using h(2,3) by (intro exI[of _ 1]) simp
  from values_round_trip[of three_items "''B''" 0] h(1) b
  have 1: "\<exists>s'. values_set (set_item_selected (Suc (Suc 0))) [''B''] three_items = Inr s'
       \<and> values_get s' = [''B'']" by blast
  from values_round_trip[of three_items "''Z''" 0] h(1) z
  have "\<exists>s'. values_set (set_item_selected (Suc (Suc 0))) [''Z''] three_items = Inr s'
       \<and> values_get s' =
           (if placeholder three_items = []
            then (case getFirstSelectable three_items of
                    Some f \<Rightarrow> [item_value (items three_items ! f)]
                  | None \<Rightarrow> [])
            else [])" by blast
  with 1 h(4,5,6) show ?thesis by simp
qed

text \<open>
  C2 as stated fails in multiple selection when two items have the value: both are
  selected, each gets its tag, and \<^verbatim>\<open>values\<close>, read from the tag list as the spec describes
  it, has the value twice.
\<close>

theorem values_round_trip_counterexample:
  "map_sum id values_get
     (values_set (set_item_selected 2) [''x'']
        ((example_select [example_item ''x'' False, example_item ''x'' False])
           \<lparr>multiple := True\<rparr>))
   = Inr [''x'', ''x'']"
  by code_simp




text \<open>
  C4. After the label is derived (\<^verbatim>\<open>_syncSelectedItemPlaceholder\<close>) it is: with a
  placeholder, the placeholder in multiple selection and in single selection with nothing
  selected, the content of the selected item otherwise; without a placeholder, the generic
  label in multiple selection, the content of the selected item in single selection, and
  with nothing selected the content of the first selectable item, which is selected by
  deriving the label (the empty label when no item is selectable). In every other case
  the selection is left as it is.
\<close>

theorem label_state_table:
  "\<exists>s'. syncSelectedItemPlaceholder (set_item_selected (Suc n)) s = Inr s'
     \<and> label s' =
        (if placeholder s \<noteq> []
         then (if multiple s then placeholder s
               else (case selectedItem s of
                       Some k \<Rightarrow> content (items s ! k)
                     | None \<Rightarrow> placeholder s))
         else if multiple s then i18n_get ''Select''
         else (case selectedItem s of
                 Some k \<Rightarrow> content (items s ! k)
               | None \<Rightarrow>
                   (case getFirstSelectable s of
                      Some k \<Rightarrow> content (items s ! k)
                    | None \<Rightarrow> [])))
     \<and> sel_set s' =
        (if placeholder s = [] \<and> \<not> multiple s \<and> selectedItem s = None
         then (case getFirstSelectable s of Some k \<Rightarrow> {k} | None \<Rightarrow> {})
         else sel_set s)"
proof (cases "auto_needed s")
  case True
  then obtain k where k: "getFirstSelectable s = Some k" by (auto simp: auto_needed_def)
  have kl: "k < length (items s)" by (rule getFirstSelectable_less[OF k])
  show ?thesis
    using True k kl
    by (simp add: sync_closed label_auto_selected sel_set_auto_selected auto_needed_def)
next
  case False
  have "sel_set s = {}" if "selectedItem s = None"
    using that by (simp add: selectedItem_None any_selected_sel_set)
  with False show ?thesis
    by (auto simp: sync_closed label_relabel auto_needed_def split: option.splits)
qed

theorem label_state_table_witness:
  "\<exists>s'. syncSelectedItemPlaceholder (set_item_selected (Suc 0)) three_items = Inr s'
     \<and> label s' = ''A'' \<and> sel_set s' = {0}"
proof -
  have h: "placeholder three_items = []" "\<not> multiple three_items"
    "selectedItem three_items = None" "getFirstSelectable three_items = Some 0"
    "content (items three_items ! 0) = ''A''"
    by code_simp+
  from label_state_table[of 0 three_items] h show ?thesis by simp
qed



text \<open>
  C6 (as amended). The flag \<^verbatim>\<open>_bulkSelectionChange\<close> is a field of the Select. A handler of
  a popup-list change, a tag-list change or a native change that finds it set returns the
  state as it is: nothing is selected or deselected and nothing is triggered. Every write
  of the \<^verbatim>\<open>selected\<close> state of a popup-list entry that an item write causes happens while
  the flag is set.
\<close>

theorem reentrant_events_ignored:
  "(bulkSelectionChange s \<longrightarrow>
       onSelectListChange w old new s = Inr s
     \<and> onTagListChange w vals s = Inr s
     \<and> onNativeSelectChange w checked s = Inr s)
   \<and> (\<exists>s' es. set_item_selected (Suc (Suc n)) s i wr = Inr s'
         \<and> trace s' = trace s @ es
         \<and> (\<forall>e \<in> set es. \<exists>k b. e = Entry_write k b True))"
proof -
  have "entry_only s (written i wr s)" by simp
  then show ?thesis
    by (auto simp: onSelectListChange_def onTagListChange_def onNativeSelectChange_def
          writer_closed entry_only_def flagged_def)
qed

theorem reentrant_events_ignored_witness:
  "onSelectListChange (set_item_selected (Suc (Suc 0))) (Entry 0) (Entry 1)
      (first_selected\<lparr>bulkSelectionChange := True\<rparr>)
     = Inr (first_selected\<lparr>bulkSelectionChange := True\<rparr>)
   \<and> onTagListChange (set_item_selected (Suc (Suc 0))) []
      (first_selected\<lparr>bulkSelectionChange := True\<rparr>)
     = Inr (first_selected\<lparr>bulkSelectionChange := True\<rparr>)
   \<and> onNativeSelectChange (set_item_selected (Suc (Suc 0))) [1]
      (first_selected\<lparr>bulkSelectionChange := True\<rparr>)
     = Inr (first_selected\<lparr>bulkSelectionChange := True\<rparr>)"
  using reentrant_events_ignored[of "first_selected\<lparr>bulkSelectionChange := True\<rparr>"
      "set_item_selected (Suc (Suc 0))" "Entry 0" "Entry 1" "[]" "[1]" 0 0 Set_attribute]
  by simp

text \<open>
  C6 as stated fails: the flag is not set for the whole of a pass. The handler of the
  first item write of the pass clears it when it returns, and the pass issues its next
  write (here the selection of item 1) with the flag cleared.
\<close>

theorem reentrant_events_ignored_counterexample:
  "map_sum id trace
     (onSelectListChange (set_item_selected 2) (Entry 0) (Entry 1) first_selected)
   = Inr [Pass_write 0 False True, Entry_write 0 False True, Entry_write 0 True True,
          Pass_write 1 True False, Entry_write 1 True True, Entry_write 0 False True]"
  by code_simp

text \<open>
  C7. In single selection, a click in the popup list on the entry of the item that is
  selected (and whose entry shows it) is cancelled by \<^verbatim>\<open>_onSelectListBeforeChange\<close>: the
  overlay is closed, no item changes and nothing is triggered.
\<close>

theorem list_click_selected_noop:
  assumes "\<not> multiple s" and "selected (items s ! i)"
    and "views (items s ! i) = Some v" and "entry_selected v"
  shows "list_click w i s = Inr (s\<lparr>overlay_open := False\<rparr>)
       \<and> onSelectListBeforeChange i s = (s\<lparr>overlay_open := False\<rparr>, True)"
  using assms by (simp add: list_click_def onSelectListBeforeChange_def)

theorem list_click_selected_noop_witness:
  "list_click (set_item_selected (Suc (Suc 0))) 0 first_selected
     = Inr (first_selected\<lparr>overlay_open := False\<rparr>)
   \<and> onSelectListBeforeChange 0 first_selected = (first_selected\<lparr>overlay_open := False\<rparr>, True)"
proof -
  have h: "\<not> multiple first_selected" "selected (items first_selected ! 0)"
    "views (items first_selected ! 0) = Some (example_views True)"
    "entry_selected (example_views True)"
    by code_simp+
  from list_click_selected_noop[OF h, of "set_item_selected (Suc (Suc 0))"] show ?thesis .
qed

text \<open>
  C9. In single selection, assigning an array of more than one value to \<^verbatim>\<open>values\<close> is
  assigning the array of its first value, whatever handles the item writes; the
  assignment returns, and what \<^verbatim>\<open>values\<close> then reads depends on the first value only.
\<close>

theorem values_set_first_only:
  assumes "\<not> multiple s" and "1 < length vs"
  shows "values_set w vs s = values_set w [vs ! 0] s
       \<and> (\<exists>s'. values_set (set_item_selected (Suc (Suc n))) vs s = Inr s'
             \<and> values_get s' =
                 (if \<exists>j < length (items s). item_value (items s ! j) = vs ! 0 then [vs ! 0]
                  else if placeholder s = []
                  then (case getFirstSelectable s of
                          Some f \<Rightarrow> [item_value (items s ! f)]
                        | None \<Rightarrow> [])
                  else []))"
proof
  show first: "values_set w vs s = values_set w [vs ! 0] s" for w
    using assms by (simp add: values_set_def)
  show "\<exists>s'. values_set (set_item_selected (Suc (Suc n))) vs s = Inr s'
             \<and> values_get s' =
                 (if \<exists>j < length (items s). item_value (items s ! j) = vs ! 0 then [vs ! 0]
                  else if placeholder s = []
                  then (case getFirstSelectable s of
                          Some f \<Rightarrow> [item_value (items s ! f)]
                        | None \<Rightarrow> [])
                  else [])"
  proof (cases "\<exists>j < length (items s). item_value (items s ! j) = vs ! 0")
    case True
    from values_set_match[OF assms(1) True, of n] show ?thesis
      unfolding first if_P[OF True] .
  next
    case False
    then have "\<forall>j < length (items s). item_value (items s ! j) \<noteq> vs ! 0" by blast
    from values_set_nomatch[OF assms(1) this, of n] show ?thesis
      unfolding first if_not_P[OF False] .
  qed
qed

theorem values_set_first_only_witness:
  "values_set (set_item_selected (Suc (Suc 0))) [''B'', ''C''] three_items
     = values_set (set_item_selected (Suc (Suc 0))) [''B''] three_items
   \<and> (\<exists>s'. values_set (set_item_selected (Suc (Suc 0))) [''B'', ''C''] three_items = Inr s'
         \<and> values_get s' = [''B''])"
proof -
  have h: "\<not> multiple three_items" "1 < length [''B'', ''C'']"
    by code_simp+
  have l: "length (items three_items) = 3" "item_value (items three_items ! 1) = ''B''"
    by code_simp+
  have b: "\<exists>j < length (items three_items). item_value (items three_items ! j) = ''B''"
    using l by (intro exI[of _ 1]) simp
  have e: "[''B'', ''C''] ! 0 = ''B''" by simp
  from values_set_first_only[OF h, of "set_item_selected (Suc (Suc 0))" 0] show ?thesis
    unfolding e if_P[OF b] .
qed

end
